theory Spec2Isabelle
  imports Main
begin

section \<open>Characters and string helpers of the host language\<close>

text \<open>
  The engine works on Python strings. A text is modelled as a \<open>string\<close>; a character
  stands for a code point below 256. The character classes below are those of Python's
  \<open>re\<close> module and of \<open>str.isspace\<close> on that range.
\<close>

type_synonym captures = "string \<rightharpoonup> string option"

definition is_space :: "char \<Rightarrow> bool" where
  "is_space c = (let n = (of_char c :: nat) in
     (9 \<le> n \<and> n \<le> 13) \<or> (28 \<le> n \<and> n \<le> 32) \<or> n = 133 \<or> n = 160)"

definition is_digit :: "char \<Rightarrow> bool" where
  "is_digit c = (let n = (of_char c :: nat) in 48 \<le> n \<and> n \<le> 57)"

definition is_word :: "char \<Rightarrow> bool" where
  "is_word c = (let n = (of_char c :: nat) in
     (48 \<le> n \<and> n \<le> 57) \<or> (65 \<le> n \<and> n \<le> 90) \<or> n = 95 \<or> (97 \<le> n \<and> n \<le> 122) \<or>
     n = 170 \<or> n = 178 \<or> n = 179 \<or> n = 181 \<or> n = 185 \<or> n = 186 \<or>
     (188 \<le> n \<and> n \<le> 190) \<or> (192 \<le> n \<and> n \<le> 214) \<or> (216 \<le> n \<and> n \<le> 246) \<or>
     248 \<le> n)"

text \<open>\<open>s.strip()\<close>: leading and trailing whitespace removed.\<close>

definition strip :: "string \<Rightarrow> string" where
  "strip s = rev (dropWhile is_space (rev (dropWhile is_space s)))"

text \<open>\<open>text[a:b]\<close> for non-negative \<open>a\<close> and \<open>b\<close>; Python clips both ends to the length.\<close>

definition slice :: "string \<Rightarrow> nat \<Rightarrow> nat \<Rightarrow> string" where
  "slice s a b = take (b - a) (drop a s)"

text \<open>\<open>s.split(c, 1)\<close> for a string \<open>s\<close> that contains \<open>c\<close>: the parts before and after
  the first \<open>c\<close>.\<close>

definition split1 :: "char \<Rightarrow> string \<Rightarrow> string \<times> string" where
  "split1 c s = (takeWhile (\<lambda>x. x \<noteq> c) s, drop 1 (dropWhile (\<lambda>x. x \<noteq> c) s))"

text \<open>\<open>s.split(c)\<close>: all the parts between occurrences of \<open>c\<close>; never empty.\<close>

fun split_on :: "char \<Rightarrow> string \<Rightarrow> string list" where
  "split_on c [] = [[]]"
| "split_on c (x # xs) =
     (if x = c then [] # split_on c xs
      else (case split_on c xs of p # ps \<Rightarrow> (x # p) # ps | [] \<Rightarrow> [[x]]))"

section \<open>Regular expressions of the macro table\<close>

text \<open>
  The three regex macros are fixed regular expressions. They are written in a small
  abstract syntax and matched with derivatives; \<open>rx_fullmatch r s\<close> holds when the whole
  of \<open>s\<close> is in the language of \<open>r\<close>.
\<close>

datatype rx = Zero | One | Cls "char \<Rightarrow> bool" | Alt rx rx | Seq rx rx | Star rx

definition Opt :: "rx \<Rightarrow> rx" where
  "Opt r = Alt r One"

definition Plus :: "rx \<Rightarrow> rx" where
  "Plus r = Seq r (Star r)"

fun nullable :: "rx \<Rightarrow> bool" where
  "nullable Zero = False"
| "nullable One = True"
| "nullable (Cls p) = False"
| "nullable (Alt r s) = (nullable r \<or> nullable s)"
| "nullable (Seq r s) = (nullable r \<and> nullable s)"
| "nullable (Star r) = True"

fun deriv :: "char \<Rightarrow> rx \<Rightarrow> rx" where
  "deriv c Zero = Zero"
| "deriv c One = Zero"
| "deriv c (Cls p) = (if p c then One else Zero)"
| "deriv c (Alt r s) = Alt (deriv c r) (deriv c s)"
| "deriv c (Seq r s) =
     (if nullable r then Alt (Seq (deriv c r) s) (deriv c s) else Seq (deriv c r) s)"
| "deriv c (Star r) = Seq (deriv c r) (Star r)"

definition rx_fullmatch :: "rx \<Rightarrow> string \<Rightarrow> bool" where
  "rx_fullmatch r s = nullable (foldl (\<lambda>q c. deriv c q) r s)"

text \<open>
  \<open>re.compile("^(?:" + R + ")$").match(substr)\<close>. Without the MULTILINE flag, \<open>$\<close> holds
  at the end of the string and also just before a newline that ends the string, so the
  test succeeds when \<open>substr\<close> is in the language of \<open>R\<close>, or is such a string followed by
  one newline.
\<close>

definition dollar_match :: "rx \<Rightarrow> string \<Rightarrow> bool" where
  "dollar_match r s =
     (rx_fullmatch r s \<or> (s \<noteq> [] \<and> last s = CHR 0x0A \<and> rx_fullmatch r (butlast s)))"

section \<open>Pattern representation\<close>

text \<open>
  The compiled regex of a literal is a sequence of items: an escaped character, which
  matches itself, or \<open>\s*\<close>, which stands where the literal has a space.
\<close>

datatype lit_item = LChar char | LWs

text \<open>
  A user regex is compiled by the host's regex library; the compiled pattern is
  represented by its \<open>fullmatch\<close> test.
\<close>

datatype Token =
    LiteralToken (lit_text: string) (lit_regex: "lit_item list")
  | HoleToken (hole_name: "string option") (hole_macro: "string option")
      (hole_regex: "(string \<Rightarrow> bool) option") (hole_optional: bool)

datatype error = UnknownMacro string | InvalidRegex string

section \<open>Macros and operations\<close>

definition sign_cls :: rx where
  "sign_cls = Cls (\<lambda>c. c = CHR ''-'' \<or> c = CHR ''+'')"

definition ascii_digit :: rx where
  "ascii_digit = Cls (\<lambda>c. let n = (of_char c :: nat) in 48 \<le> n \<and> n \<le> 57)"

definition REGEX_MACROS :: "string \<Rightarrow> rx option" where
  "REGEX_MACROS m =
     (if m = ''digit'' then Some (Plus (Cls is_digit))
      else if m = ''word'' then Some (Plus (Cls is_word))
      else if m = ''num'' then
        Some (Seq (Opt sign_cls) (Seq (Plus ascii_digit)
          (Seq (Opt (Seq (Cls (\<lambda>c. c = CHR ''.'')) (Plus ascii_digit)))
               (Opt (Seq (Cls (\<lambda>c. c = CHR ''e'' \<or> c = CHR ''E''))
                      (Seq (Opt sign_cls) (Plus ascii_digit)))))))
      else None)"

definition STRUCTURAL_MACROS :: "string \<Rightarrow> (char \<times> char \<times> bool) option" where
  "STRUCTURAL_MACROS m =
     (if m = ''()'' then Some (CHR ''('', CHR '')'', False)
      else if m = ''[]'' then Some (CHR ''['', CHR '']'', False)
      else if m = ''{}'' then Some (CHR ''{'', CHR ''}'', False)
      else if m = ''(_)'' then Some (CHR ''('', CHR '')'', True)
      else if m = ''[_]'' then Some (CHR ''['', CHR '']'', True)
      else if m = ''{_}'' then Some (CHR ''{'', CHR ''}'', True)
      else None)"

text \<open>
  The library functions that the operation table and the compiler call: \<open>re.compile\<close>
  (\<open>None\<close> when it raises \<open>re.PatternError\<close>), the \<open>str\<close> methods, \<open>int\<close> of a string and
  \<open>str\<close> of an integer (each \<open>None\<close> when it raises: \<open>int\<close> on a string that is no integer
  literal, and both on a number with more digits than the interpreter's limit for the
  conversion), and the three \<open>pathlib.Path\<close> attributes.
\<close>

record host =
  re_compile :: "string \<Rightarrow> (string \<Rightarrow> bool) option"
  str_upper :: "string \<Rightarrow> string"
  str_lower :: "string \<Rightarrow> string"
  str_capitalize :: "string \<Rightarrow> string"
  py_int :: "string \<Rightarrow> int option"
  py_str :: "int \<Rightarrow> string option"
  path_name :: "string \<Rightarrow> string"
  path_stem :: "string \<Rightarrow> string"
  path_suffix :: "string \<Rightarrow> string"

text \<open>
  An operation maps a string to a string, or raises (\<open>None\<close>). \<open>inc\<close> and \<open>dec\<close> are
  \<open>str(int(v) + 1)\<close> and \<open>str(int(v) - 1)\<close>: they raise when \<open>int\<close> raises and when \<open>str\<close>
  does.
\<close>

definition OPERATIONS :: "host \<Rightarrow> string \<Rightarrow> (string \<Rightarrow> string option) option" where
  "OPERATIONS L nm =
     (if nm = ''upper'' then Some (\<lambda>v. Some (str_upper L v))
      else if nm = ''lower'' then Some (\<lambda>v. Some (str_lower L v))
      else if nm = ''capitalize'' then Some (\<lambda>v. Some (str_capitalize L v))
      else if nm = ''strip'' then Some (\<lambda>v. Some (strip v))
      else if nm = ''inc'' then Some (\<lambda>v. case py_int L v of None \<Rightarrow> None | Some n \<Rightarrow> py_str L (n + 1))
      else if nm = ''dec'' then Some (\<lambda>v. case py_int L v of None \<Rightarrow> None | Some n \<Rightarrow> py_str L (n - 1))
      else if nm = ''filename'' then Some (\<lambda>p. Some (path_name L p))
      else if nm = ''basename'' then Some (\<lambda>p. Some (path_stem L p))
      else if nm = ''extension'' then
        Some (\<lambda>p. Some (dropWhile (\<lambda>c. c = CHR ''.'') (path_suffix L p)))
      else None)"

section \<open>Pattern compilation\<close>

text \<open>\<open>pattern.replace("...", ":[_]")\<close>: occurrences are replaced from the left, without
  overlap.\<close>

fun replace_dots :: "string \<Rightarrow> string" where
  "replace_dots (a # b # c # cs) =
     (if a = CHR ''.'' \<and> b = CHR ''.'' \<and> c = CHR ''.''
      then '':[_]'' @ replace_dots cs else a # replace_dots (b # c # cs))"
| "replace_dots cs = cs"

definition make_literal_token :: "string \<Rightarrow> Token" where
  "make_literal_token t =
     LiteralToken t (map (\<lambda>c. if c = CHR '' '' then LWs else LChar c) t)"

definition parse_hole :: "host \<Rightarrow> string \<Rightarrow> error + Token" where
  "parse_hole L content0 =
     (let optional = (content0 \<noteq> [] \<and> last content0 = CHR ''?'');
          content = (if optional then butlast content0 else content0);
          (name, macro, regex_pat) =
            (if CHR ''~'' \<in> set content then
               (let (l, r) = split1 CHR ''~'' content; lhs = strip l; rhs = strip r
                in (if lhs \<noteq> [] \<and> lhs \<noteq> ''_'' then Some lhs else None, None, Some rhs))
             else if CHR '':'' \<in> set content then
               (let (l, r) = split1 CHR '':'' content; lhs = strip l; rhs = strip r
                in (if lhs \<noteq> [] \<and> lhs \<noteq> ''_'' then Some lhs else None, Some rhs, None))
             else
               (let c = strip content
                in (if c \<noteq> [] \<and> c \<noteq> ''_'' then Some c else None, None, None)))
      in case (case macro of
                 Some m \<Rightarrow>
                   if m \<noteq> [] \<and> REGEX_MACROS m = None \<and> STRUCTURAL_MACROS m = None
                   then Some m else None
               | None \<Rightarrow> None) of
           Some m \<Rightarrow> Inl (UnknownMacro m)
         | None \<Rightarrow>
             (case regex_pat of
                Some p \<Rightarrow>
                  if p \<noteq> [] then
                    (case re_compile L p of
                       None \<Rightarrow> Inl (InvalidRegex p)
                     | Some re \<Rightarrow> Inr (HoleToken name macro (Some re) optional))
                  else Inr (HoleToken name macro None optional)
              | None \<Rightarrow> Inr (HoleToken name macro None optional)))"

text \<open>\<open>HOLE_RE\<close> tried at the start of \<open>s\<close>: the hole's content and the rest after its \<open>]\<close>.\<close>

definition hole_at :: "string \<Rightarrow> (string \<times> string) option" where
  "hole_at s =
     (case s of
        a # b # r \<Rightarrow>
          if a = CHR '':'' \<and> b = CHR ''['' then
            (case dropWhile (\<lambda>c. c \<noteq> CHR '']'') r of
               [] \<Rightarrow> None
             | _ # after \<Rightarrow> Some (takeWhile (\<lambda>c. c \<noteq> CHR '']'') r, after))
          else None
      | _ \<Rightarrow> None)"

text \<open>
  The loop over \<open>HOLE_RE.finditer(pattern)\<close>: \<open>lit\<close> is the literal segment read since the
  last hole, \<open>s\<close> the rest of the pattern.
\<close>

lemma hole_at_shorter: "hole_at s = Some (content, after) \<Longrightarrow> length after < length s"
proof -
  assume "hole_at s = Some (content, after)"
  then obtain a b r x where s: "s = a # b # r"
    and d: "dropWhile (\<lambda>c. c \<noteq> CHR '']'') r = x # after"
    by (auto simp: hole_at_def split: list.splits if_splits)
  have "length (dropWhile (\<lambda>c. c \<noteq> CHR '']'') r) \<le> length r"
    by (rule length_dropWhile_le)
  with s d show ?thesis by simp
qed

function tokenize :: "host \<Rightarrow> string \<Rightarrow> string \<Rightarrow> error + Token list" where
  "tokenize L lit s =
     (if s = [] then Inr (if lit = [] then [] else [make_literal_token lit])
      else case hole_at s of
        Some (content, after) \<Rightarrow>
          (case parse_hole L content of
             Inl e \<Rightarrow> Inl e
           | Inr h \<Rightarrow>
               (case tokenize L [] after of
                  Inl e \<Rightarrow> Inl e
                | Inr ts \<Rightarrow> Inr ((if lit = [] then [] else [make_literal_token lit]) @ h # ts)))
      | None \<Rightarrow> tokenize L (lit @ [hd s]) (tl s))"
  by pat_completeness auto
termination
  by (relation "measure (\<lambda>(L, lit, s). length s)")
     (auto dest: hole_at_shorter intro: Suc_lessD)

definition compile_pattern :: "host \<Rightarrow> string \<Rightarrow> error + Token list" where
  "compile_pattern L pattern = tokenize L [] (replace_dots pattern)"

section \<open>Matching engine\<close>

text \<open>
  The compiled regex of a literal, matched at the start of \<open>s\<close> by backtracking: the
  number of characters consumed by the first successful path. \<open>\s*\<close> is greedy: it first
  takes the whole run of whitespace and gives characters back one at a time.
\<close>

function lit_match :: "lit_item list \<Rightarrow> string \<Rightarrow> nat option"
  and ws_backtrack :: "lit_item list \<Rightarrow> string \<Rightarrow> nat \<Rightarrow> nat option" where
  "lit_match [] s = Some 0"
| "lit_match (LChar c # r) s =
     (case s of
        [] \<Rightarrow> None
      | x # xs \<Rightarrow> if x = c then map_option Suc (lit_match r xs) else None)"
| "lit_match (LWs # r) s = ws_backtrack r s (length (takeWhile is_space s))"
| "ws_backtrack r s k =
     (case lit_match r (drop k s) of
        Some m \<Rightarrow> Some (k + m)
      | None \<Rightarrow> (case k of 0 \<Rightarrow> None | Suc j \<Rightarrow> ws_backtrack r s j))"
  by pat_completeness auto
termination
  by (relation "measures
        [\<lambda>x. case x of Inl (r, s) \<Rightarrow> 2 * length r | Inr (r, s, k) \<Rightarrow> 2 * length r + 1,
         \<lambda>x. case x of Inl (r, s) \<Rightarrow> 0 | Inr (r, s, k) \<Rightarrow> k]") auto

text \<open>\<open>token.regex.match(text, i)\<close>: the end position of the match, if any.\<close>

definition regex_match :: "lit_item list \<Rightarrow> string \<Rightarrow> nat \<Rightarrow> nat option" where
  "regex_match re text i =
     (let p = min i (length text) in map_option (\<lambda>k. p + k) (lit_match re (drop p text)))"

subsection \<open>Balanced scanner\<close>

record scan_state =
  pos :: nat
  depth :: int
  in_string :: "char option"
  in_line_comment :: bool
  in_block_comment :: bool

text \<open>
  One pass through the body of the scanner's \<open>while\<close> loop, at a position inside the
  text: the next state, or the value returned from inside the loop.
\<close>

definition scan_step ::
  "string \<Rightarrow> char \<Rightarrow> char \<Rightarrow> bool \<Rightarrow> nat \<Rightarrow> scan_state \<Rightarrow> scan_state + (nat \<times> string)" where
  "scan_step text open_ch close_ch inner_only start s =
     (let i = pos s; n = length text; c = text ! i;
          nxt = (if i + 1 < n then Some (text ! (i + 1)) else None)
      in case in_string s of
           Some q \<Rightarrow>
             if c = CHR 0x5C then Inl (s\<lparr>pos := i + 2\<rparr>)
             else if c = q then Inl (s\<lparr>in_string := None, pos := i + 1\<rparr>)
             else Inl (s\<lparr>pos := i + 1\<rparr>)
         | None \<Rightarrow>
             if in_line_comment s then
               (if c = CHR 0x0A then Inl (s\<lparr>in_line_comment := False, pos := i + 1\<rparr>)
                else Inl (s\<lparr>pos := i + 1\<rparr>))
             else if in_block_comment s then
               (if c = CHR ''*'' \<and> nxt = Some CHR ''/''
                then Inl (s\<lparr>in_block_comment := False, pos := i + 2\<rparr>)
                else Inl (s\<lparr>pos := i + 1\<rparr>))
             else if c = CHR ''/'' \<and> nxt = Some CHR ''/''
               then Inl (s\<lparr>in_line_comment := True, pos := i + 2\<rparr>)
             else if c = CHR ''/'' \<and> nxt = Some CHR ''*''
               then Inl (s\<lparr>in_block_comment := True, pos := i + 2\<rparr>)
             else if c = CHR 0x22 \<or> c = CHR 0x27
               then Inl (s\<lparr>in_string := Some c, pos := i + 1\<rparr>)
             else if c = open_ch then Inl (s\<lparr>depth := depth s + 1, pos := i + 1\<rparr>)
             else if c = close_ch then
               (if depth s - 1 = 0 then
                  Inr (i + 1, if inner_only then slice text (start + 1) (i + 1 - 1)
                              else slice text start (i + 1))
                else Inl (s\<lparr>depth := depth s - 1, pos := i + 1\<rparr>))
             else Inl (s\<lparr>pos := i + 1\<rparr>))"

lemma scan_step_advances:
  "scan_step text open_ch close_ch inner_only start s = Inl s' \<Longrightarrow> pos s < pos s'"
  by (auto simp: scan_step_def Let_def split: option.splits if_splits)

function scan_loop ::
  "string \<Rightarrow> char \<Rightarrow> char \<Rightarrow> bool \<Rightarrow> nat \<Rightarrow> scan_state \<Rightarrow> (nat \<times> string) option" where
  "scan_loop text open_ch close_ch inner_only start s =
     (if pos s < length text then
        (case scan_step text open_ch close_ch inner_only start s of
           Inl s' \<Rightarrow> scan_loop text open_ch close_ch inner_only start s'
         | Inr r \<Rightarrow> Some r)
      else None)"
  by pat_completeness auto
termination
  by (relation "measure (\<lambda>(text, open_ch, close_ch, inner_only, start, s). length text - pos s)")
     (auto dest: scan_step_advances)

definition match_balanced ::
  "string \<Rightarrow> nat \<Rightarrow> char \<Rightarrow> char \<Rightarrow> bool \<Rightarrow> (nat \<times> string) option" where
  "match_balanced text i open_ch close_ch inner_only =
     (if i \<ge> length text \<or> text ! i \<noteq> open_ch then None
      else scan_loop text open_ch close_ch inner_only i
             \<lparr>pos = i + 1, depth = 1, in_string = None,
              in_line_comment = False, in_block_comment = False\<rparr>)"

subsection \<open>Recursive matcher\<close>

text \<open>The candidate end positions of a hole that is not structural, in the order tried.\<close>

definition end_iter ::
  "string option \<Rightarrow> (string \<Rightarrow> bool) option \<Rightarrow> string \<Rightarrow> nat \<Rightarrow> nat list" where
  "end_iter macro regex text i =
     (if (case macro of Some m \<Rightarrow> REGEX_MACROS m \<noteq> None | None \<Rightarrow> False) \<or> regex \<noteq> None
      then rev [i + 1 ..< length text + 1]
      else [i ..< length text + 1])"

text \<open>
  \<open>match_from\<close> is the recursive matcher; \<open>try_ends\<close> is its \<open>for end in end_iter\<close> loop
  over the candidates still to try, followed by the code after the loop (the skip of an
  optional hole). The source compares \<open>ti\<close> with the number of tokens for equality; the
  index starts at 0 in \<open>match_first\<close> and grows by one, so it never exceeds that number.
\<close>

function match_from ::
    "string \<Rightarrow> Token list \<Rightarrow> nat \<Rightarrow> nat \<Rightarrow> captures \<Rightarrow> bool \<times> nat \<times> captures"
  and try_ends ::
    "string \<Rightarrow> Token list \<Rightarrow> nat \<Rightarrow> nat \<Rightarrow> captures \<Rightarrow>
     string option \<Rightarrow> string option \<Rightarrow> (string \<Rightarrow> bool) option \<Rightarrow> bool \<Rightarrow> nat list \<Rightarrow>
     bool \<times> nat \<times> captures" where
  "match_from text tokens ti i caps =
     (if length tokens \<le> ti then (True, i, caps)
      else case tokens ! ti of
        LiteralToken t re \<Rightarrow>
          (case regex_match re text i of
             None \<Rightarrow> (False, i, caps)
           | Some e \<Rightarrow> match_from text tokens (ti + 1) e caps)
      | HoleToken name macro regex optional \<Rightarrow>
          (case Option.bind macro STRUCTURAL_MACROS of
             Some (open_ch, close_ch, inner_only) \<Rightarrow>
               (case match_balanced text i open_ch close_ch inner_only of
                  None \<Rightarrow> (False, i, caps)
                | Some (new_i, chunk) \<Rightarrow>
                    match_from text tokens (ti + 1) new_i
                      (case name of
                         Some n \<Rightarrow> if n \<noteq> [] then caps(n \<mapsto> Some chunk) else caps
                       | None \<Rightarrow> caps))
           | None \<Rightarrow>
               try_ends text tokens ti i caps name macro regex optional
                 (end_iter macro regex text i)))"
| "try_ends text tokens ti i caps name macro regex optional [] =
     (if optional then
        match_from text tokens (ti + 1) i
          (case name of
             Some n \<Rightarrow> if caps n = None then caps(n \<mapsto> None) else caps
           | None \<Rightarrow> caps)
      else (False, i, caps))"
| "try_ends text tokens ti i caps name macro regex optional (e # es) =
     (if (case Option.bind macro REGEX_MACROS of
            Some r \<Rightarrow> \<not> dollar_match r (slice text i e)
          | None \<Rightarrow> False)
      then try_ends text tokens ti i caps name macro regex optional es
      else if (case regex of Some re \<Rightarrow> \<not> re (slice text i e) | None \<Rightarrow> False)
      then try_ends text tokens ti i caps name macro regex optional es
      else
        (case match_from text tokens (ti + 1) e
                (case name of Some n \<Rightarrow> caps(n \<mapsto> Some (slice text i e)) | None \<Rightarrow> caps) of
           (ok, end_pos, cap_res) \<Rightarrow>
             if ok then (ok, end_pos, cap_res)
             else try_ends text tokens ti i caps name macro regex optional es))"
  by pat_completeness auto
termination
  by (relation "measures
        [\<lambda>x. case x of
                Inl (text, tokens, ti, i, caps) \<Rightarrow> 2 * (length tokens - ti)
              | Inr (text, tokens, ti, i, caps, name, macro, regex, optional, ends) \<Rightarrow>
                  2 * (length tokens - Suc ti) + 1,
         \<lambda>x. case x of
                Inl (text, tokens, ti, i, caps) \<Rightarrow> 0
              | Inr (text, tokens, ti, i, caps, name, macro, regex, optional, ends) \<Rightarrow>
                  length ends]") auto

text \<open>The loop of \<open>match_first\<close> over the start positions still to try.\<close>

fun match_first_from ::
  "string \<Rightarrow> Token list \<Rightarrow> nat list \<Rightarrow> bool \<times> (nat \<times> nat) \<times> captures" where
  "match_first_from text tokens [] = (False, (0, 0), Map.empty)"
| "match_first_from text tokens (start # rest) =
     (case match_from text tokens 0 start Map.empty of
        (ok, end_pos, caps) \<Rightarrow>
          if ok then (True, (start, end_pos), caps)
          else match_first_from text tokens rest)"

definition match_first :: "string \<Rightarrow> Token list \<Rightarrow> bool \<times> (nat \<times> nat) \<times> captures" where
  "match_first text tokens = match_first_from text tokens [0 ..< length text + 1]"

section \<open>Replacement rendering\<close>

text \<open>
  The loop of \<open>replacer\<close> over the operation names: the final value, or \<open>None\<close> where
  the source returns the placeholder (an unknown operation, or one that raises).
\<close>

fun apply_ops :: "host \<Rightarrow> string list \<Rightarrow> string \<Rightarrow> string option" where
  "apply_ops L [] v = Some v"
| "apply_ops L (op_name # ops) v =
     (case OPERATIONS L op_name of
        None \<Rightarrow> None
      | Some func \<Rightarrow> (case func v of None \<Rightarrow> None | Some v' \<Rightarrow> apply_ops L ops v'))"

text \<open>\<open>replacer\<close> on a match whose group 1 is \<open>placeholder\<close>; group 0 is the placeholder
  with its brackets.\<close>

definition replacer :: "host \<Rightarrow> captures \<Rightarrow> string \<Rightarrow> string" where
  "replacer L caps placeholder =
     (case split_on CHR ''.'' placeholder of
        [] \<Rightarrow> '':['' @ placeholder @ '']''
      | field # ops \<Rightarrow>
          (case caps field of
             None \<Rightarrow> '':['' @ placeholder @ '']''
           | Some None \<Rightarrow> '':['' @ placeholder @ '']''
           | Some (Some v) \<Rightarrow>
               (case apply_ops L ops v of
                  None \<Rightarrow> '':['' @ placeholder @ '']''
                | Some r \<Rightarrow> r)))"

text \<open>The placeholder regex tried at the start of \<open>s\<close>: as \<open>HOLE_RE\<close>, with a content of
  at least one character.\<close>

definition placeholder_at :: "string \<Rightarrow> (string \<times> string) option" where
  "placeholder_at s =
     (case hole_at s of
        Some (content, after) \<Rightarrow> if content = [] then None else Some (content, after)
      | None \<Rightarrow> None)"

function render_template :: "host \<Rightarrow> string \<Rightarrow> captures \<Rightarrow> string" where
  "render_template L [] caps = []"
| "render_template L (x # xs) caps =
     (case placeholder_at (x # xs) of
        Some (content, after) \<Rightarrow> replacer L caps content @ render_template L after caps
      | None \<Rightarrow> x # render_template L xs caps)"
  by pat_completeness auto
termination
  by (relation "measure (\<lambda>(L, s, caps). length s)")
     (auto simp: placeholder_at_def split: option.splits if_splits dest: hole_at_shorter)

section \<open>Public API\<close>

datatype outcome = CaptureList "captures list" | Captures captures | Rewritten string

text \<open>
  The \<open>while True\<close> loop of \<open>pycomby\<close>, with its state \<open>result_text\<close>, \<open>offset\<close> and
  \<open>all_captures\<close>. The value \<open>None\<close> stands for a loop that never ends.
\<close>

partial_function (option) pycomby_loop ::
  "host \<Rightarrow> Token list \<Rightarrow> string option \<Rightarrow> string \<Rightarrow> nat \<Rightarrow> captures list \<Rightarrow> outcome option"
  where
  "pycomby_loop L tokens replacement result_text offset all_captures =
     (case match_first (drop offset result_text) tokens of
        (ok, (start_in_substring, end_in_substring), caps) \<Rightarrow>
          if \<not> ok then
            Some (case replacement of
                    None \<Rightarrow> CaptureList all_captures
                  | Some r \<Rightarrow> Rewritten result_text)
          else
            (case replacement of
               None \<Rightarrow>
                 pycomby_loop L tokens replacement result_text
                   (if end_in_substring = start_in_substring
                    then offset + end_in_substring + 1 else offset + end_in_substring)
                   (all_captures @ [caps])
             | Some r \<Rightarrow>
                 pycomby_loop L tokens replacement
                   (take (offset + start_in_substring) result_text
                      @ render_template L r caps
                      @ drop (offset + end_in_substring) result_text)
                   (offset + start_in_substring + length (render_template L r caps))
                   all_captures))"

definition pycomby :: "host \<Rightarrow> string \<Rightarrow> string \<Rightarrow> string option \<Rightarrow> (error + outcome) option" where
  "pycomby L text pattern replacement =
     (case compile_pattern L pattern of
        Inl e \<Rightarrow> Some (Inl e)
      | Inr tokens \<Rightarrow>
          if tokens = [] then
            (case replacement of
               None \<Rightarrow> Some (Inr (CaptureList []))
             | Some r \<Rightarrow> Some (Inr (Rewritten text)))
          else map_option Inr (pycomby_loop L tokens replacement text 0 []))"

definition pycomby_single :: "host \<Rightarrow> string \<Rightarrow> string \<Rightarrow> string option \<Rightarrow> error + outcome" where
  "pycomby_single L text pattern replacement =
     (case compile_pattern L pattern of
        Inl e \<Rightarrow> Inl e
      | Inr tokens \<Rightarrow>
          if tokens = [] then
            (case replacement of
               None \<Rightarrow> Inr (Captures Map.empty)
             | Some r \<Rightarrow> Inr (Rewritten text))
          else
            (case match_first text tokens of
               (ok, (start, end_pos), caps) \<Rightarrow>
                 (case replacement of
                    None \<Rightarrow> Inr (Captures (if ok then caps else Map.empty))
                  | Some r \<Rightarrow>
                      Inr (Rewritten
                        (take start text
                           @ render_template L r (if ok then caps else Map.empty)
                           @ drop end_pos text)))))"

declare pycomby_loop.simps [code]

section \<open>A host for the examples\<close>

text \<open>
  The theorems below hold for every host. Closed examples are evaluated with this one: it
  covers ASCII letters, decimal integers written as digits after an optional minus sign
  (with the limit of 4300 digits that the interpreter sets by default on both conversions),
  paths with \<open>/\<close> as the separator, and the two user regexes \<open>.*\<close> and \<open>[0-9]+\<close> (every other
  pattern is rejected).
\<close>

definition ascii_upper :: "char \<Rightarrow> char" where
  "ascii_upper c =
     (let n = (of_char c :: nat) in if 97 \<le> n \<and> n \<le> 122 then char_of (n - 32) else c)"

definition ascii_lower :: "char \<Rightarrow> char" where
  "ascii_lower c =
     (let n = (of_char c :: nat) in if 65 \<le> n \<and> n \<le> 90 then char_of (n + 32) else c)"

function dec_nat :: "nat \<Rightarrow> string" where
  "dec_nat n =
     (if n < 10 then [char_of (48 + n)] else dec_nat (n div 10) @ [char_of (48 + n mod 10)])"
  by pat_completeness auto
termination
  by (relation "measure (\<lambda>n. n)") auto

definition dec_int :: "int \<Rightarrow> string" where
  "dec_int n = (if n < 0 then CHR ''-'' # dec_nat (nat (- n)) else dec_nat (nat n))"

definition digits_value :: "string \<Rightarrow> int" where
  "digits_value s = foldl (\<lambda>a c. 10 * a + (of_char c - 48)) 0 s"

definition parse_int :: "string \<Rightarrow> int option" where
  "parse_int s =
     (case s of
        [] \<Rightarrow> None
      | c # r \<Rightarrow>
          if c = CHR ''-'' \<and> r \<noteq> [] \<and> list_all is_digit r then Some (- digits_value r)
          else if list_all is_digit s then Some (digits_value s)
          else None)"

definition max_str_digits :: nat where
  "max_str_digits = 4300"

definition int_of_str :: "string \<Rightarrow> int option" where
  "int_of_str s = (if max_str_digits < length (filter is_digit s) then None else parse_int s)"

definition str_of_int :: "int \<Rightarrow> string option" where
  "str_of_int n =
     (if max_str_digits < length (dec_nat (nat \<bar>n\<bar>)) then None else Some (dec_int n))"

definition last_part :: "char \<Rightarrow> string \<Rightarrow> string" where
  "last_part c s = rev (takeWhile (\<lambda>x. x \<noteq> c) (rev s))"

definition example_host :: host where
  "example_host =
     \<lparr>re_compile =
        (\<lambda>p. if p = ''.*'' then Some (\<lambda>s. CHR 0x0A \<notin> set s)
             else if p = ''[0-9]+'' then Some (rx_fullmatch (Plus ascii_digit))
             else None),
      str_upper = map ascii_upper,
      str_lower = map ascii_lower,
      str_capitalize = (\<lambda>s. case s of [] \<Rightarrow> [] | c # r \<Rightarrow> ascii_upper c # map ascii_lower r),
      py_int = int_of_str,
      py_str = str_of_int,
      path_name = last_part CHR ''/'',
      path_stem =
        (\<lambda>p. let nm = last_part CHR ''/'' p in
              if CHR ''.'' \<in> set nm
              then take (length nm - length (last_part CHR ''.'' nm) - 1) nm else nm),
      path_suffix =
        (\<lambda>p. let nm = last_part CHR ''/'' p in
              if CHR ''.'' \<in> set nm then CHR ''.'' # last_part CHR ''.'' nm else [])\<rparr>"

declare tokenize.simps [simp del]
declare lit_match.simps [simp del] ws_backtrack.simps [simp del]
declare scan_loop.simps [simp del]
declare match_from.simps [simp del] try_ends.simps [simp del]
declare dec_nat.simps [simp del]
declare render_template.simps(2) [simp del]

section \<open>Notions used in the statements\<close>

text \<open>
  The left-to-right scan of \<open>re.sub\<close> with the placeholder regex, run over a text \<open>pre\<close>
  that something follows: \<open>closed_prefix pre\<close> holds when the scan comes to the end of
  \<open>pre\<close> between two matches, so that what follows \<open>pre\<close> is scanned from its own first
  character. At \<open>:[\<close> with a \<open>]\<close> later in \<open>pre\<close> the scan goes on after that \<open>]\<close> when
  something stands between the brackets (a placeholder), and one character further when
  nothing does (\<open>:[]\<close> is no placeholder); anywhere else it goes one character further.
  The prefix is not closed when the scan meets \<open>:[\<close> with no \<open>]\<close> after it in \<open>pre\<close>:
  the placeholder that starts there takes in the beginning of what follows.
\<close>

function closed_prefix :: "string \<Rightarrow> bool" where
  "closed_prefix [] = True"
| "closed_prefix [a] = True"
| "closed_prefix (a # b # cs) =
     (if a = CHR '':'' \<and> b = CHR ''['' then
        (case hole_at (a # b # cs) of
           None \<Rightarrow> False
         | Some (content, after) \<Rightarrow>
             if content = [] then closed_prefix (b # cs) else closed_prefix after)
      else closed_prefix (b # cs))"
  by pat_completeness auto
termination
  by (relation "measure length") (auto dest: hole_at_shorter)

text \<open>
  The renderer as the specification words it: the operations folded from left to right
  over the captured string, each looked up in the table; the fold has no value once an
  operation is unknown or raises.
\<close>

definition spec_fold_ops :: "host \<Rightarrow> string list \<Rightarrow> string \<Rightarrow> string option" where
  "spec_fold_ops L ops v =
     foldl (\<lambda>acc op_name.
              case acc of
                None \<Rightarrow> None
              | Some x \<Rightarrow> (case OPERATIONS L op_name of None \<Rightarrow> None | Some func \<Rightarrow> func x))
           (Some v) ops"

text \<open>Some operation of the chain raises when the fold reaches it.\<close>

definition op_raises :: "host \<Rightarrow> string list \<Rightarrow> string \<Rightarrow> bool" where
  "op_raises L ops v =
     (\<exists>before op_name later func w.
        ops = before @ op_name # later \<and> spec_fold_ops L before v = Some w
        \<and> OPERATIONS L op_name = Some func \<and> func w = None)"

text \<open>
  The lexer of the balanced scanner as a classifier of a text, read from a given mode:
  \<open>outside_only oc cc m cs\<close> holds when no character of \<open>cs\<close> that lies inside a string
  literal, a line comment or a block comment (its closing character included, and the
  character after a backslash in a string) is \<open>oc\<close> or \<open>cc\<close>. A backslash in a string
  takes the next character with it, a quote or a newline ends a string or a line comment,
  \<open>*/\<close> ends a block comment; in code \<open>//\<close>, \<open>/*\<close> and the two quotes open a comment or a
  string.
\<close>

datatype lex_mode = Code | InString char | InLineComment | InBlockComment

fun outside_only :: "char \<Rightarrow> char \<Rightarrow> lex_mode \<Rightarrow> string \<Rightarrow> bool" where
  "outside_only oc cc m [] = True"
| "outside_only oc cc Code [x] = True"
| "outside_only oc cc m [x] = (x \<noteq> oc \<and> x \<noteq> cc)"
| "outside_only oc cc (InString q) (x # y # ys) =
     (x \<noteq> oc \<and> x \<noteq> cc \<and>
      (if x = CHR 0x5C then y \<noteq> oc \<and> y \<noteq> cc \<and> outside_only oc cc (InString q) ys
       else if x = q then outside_only oc cc Code (y # ys)
       else outside_only oc cc (InString q) (y # ys)))"
| "outside_only oc cc InLineComment (x # y # ys) =
     (x \<noteq> oc \<and> x \<noteq> cc \<and>
      (if x = CHR 0x0A then outside_only oc cc Code (y # ys)
       else outside_only oc cc InLineComment (y # ys)))"
| "outside_only oc cc InBlockComment (x # y # ys) =
     (x \<noteq> oc \<and> x \<noteq> cc \<and>
      (if x = CHR ''*'' \<and> y = CHR ''/'' then y \<noteq> oc \<and> y \<noteq> cc \<and> outside_only oc cc Code ys
       else outside_only oc cc InBlockComment (y # ys)))"
| "outside_only oc cc Code (x # y # ys) =
     (if x = CHR ''/'' \<and> y = CHR ''/'' then outside_only oc cc InLineComment ys
      else if x = CHR ''/'' \<and> y = CHR ''*'' then outside_only oc cc InBlockComment ys
      else if x = CHR 0x22 \<or> x = CHR 0x27 then outside_only oc cc (InString x) (y # ys)
      else outside_only oc cc Code (y # ys))"

text \<open>
  The mode that the three lexer variables of the scanner stand for, the states in which at
  most one of them is set, and the delimiter pairs that are distinct and are neither a
  quote nor one of the characters of the comment markers (all pairs of the macro table
  are).
\<close>

definition mode_of :: "scan_state \<Rightarrow> lex_mode" where
  "mode_of s =
     (case in_string s of
        Some q \<Rightarrow> InString q
      | None \<Rightarrow>
          if in_line_comment s then InLineComment
          else if in_block_comment s then InBlockComment
          else Code)"

definition one_mode :: "scan_state \<Rightarrow> bool" where
  "one_mode s =
     (case in_string s of
        Some q \<Rightarrow> \<not> in_line_comment s \<and> \<not> in_block_comment s
      | None \<Rightarrow> \<not> (in_line_comment s \<and> in_block_comment s))"

definition plain_delims :: "char \<Rightarrow> char \<Rightarrow> bool" where
  "plain_delims oc cc =
     (oc \<noteq> cc \<and> oc \<notin> {CHR ''/'', CHR ''*'', CHR 0x22, CHR 0x27}
      \<and> cc \<notin> {CHR ''/'', CHR ''*'', CHR 0x22, CHR 0x27})"

text \<open>
  A decomposition of a match has one segment for each token, in pattern order: the text
  consumed by a literal token, or the value captured by a hole token (none for an optional
  hole that was skipped). \<open>seg_text\<close> is what a segment contributes when the segments are
  concatenated as they are.
\<close>

datatype seg = LitSeg string | HoleSeg "string option"

fun seg_text :: "seg \<Rightarrow> string" where
  "seg_text (LitSeg u) = u"
| "seg_text (HoleSeg (Some v)) = v"
| "seg_text (HoleSeg None) = []"

text \<open>
  The text of the input that a segment covers: the value of a hole declared with an
  inner-only macro has lost its delimiters, which are put back here.
\<close>

fun covered :: "Token \<Rightarrow> seg \<Rightarrow> string" where
  "covered (HoleToken name macro regex optional) (HoleSeg (Some v)) =
     (case Option.bind macro STRUCTURAL_MACROS of
        Some (open_ch, close_ch, inner_only) \<Rightarrow>
          if inner_only then open_ch # v @ [close_ch] else v
      | None \<Rightarrow> v)"
| "covered tok sg = seg_text sg"

text \<open>A literal token takes a literal segment and a hole token a hole segment; only an
  optional hole can have been skipped.\<close>

fun seg_fits :: "Token \<Rightarrow> seg \<Rightarrow> bool" where
  "seg_fits (LiteralToken t re) (LitSeg u) = True"
| "seg_fits (HoleToken name macro regex optional) (HoleSeg (Some v)) = True"
| "seg_fits (HoleToken name macro regex optional) (HoleSeg None) = optional"
| "seg_fits tok sg = False"

text \<open>The binding that the matcher records for a hole and its value, as \<open>match_from\<close>
  and \<open>try_ends\<close> do it.\<close>

fun bind_seg :: "Token \<Rightarrow> seg \<Rightarrow> captures \<Rightarrow> captures" where
  "bind_seg (HoleToken (Some n) macro regex optional) (HoleSeg (Some v)) caps =
     (if Option.bind macro STRUCTURAL_MACROS \<noteq> None \<and> n = [] then caps
      else caps(n \<mapsto> Some v))"
| "bind_seg (HoleToken (Some n) macro regex optional) (HoleSeg None) caps =
     (if caps n = None then caps(n \<mapsto> None) else caps)"
| "bind_seg tok sg caps = caps"

text \<open>
  Checking a decomposition against the text from position \<open>i\<close>: every segment fits its
  token and covers the text found at the current position, a literal segment ends where
  the literal's matcher ends, and the hole values are bound in order. The result is the
  end position and the bindings.
\<close>

fun replay ::
  "string \<Rightarrow> Token list \<Rightarrow> seg list \<Rightarrow> nat \<Rightarrow> captures \<Rightarrow> (nat \<times> captures) option" where
  "replay text [] [] i caps = Some (i, caps)"
| "replay text (tok # toks) (sg # sgs) i caps =
     (if seg_fits tok sg \<and> i + length (covered tok sg) \<le> length text
         \<and> slice text i (i + length (covered tok sg)) = covered tok sg
         \<and> (case tok of
               LiteralToken t re \<Rightarrow> regex_match re text i = Some (i + length (covered tok sg))
             | HoleToken name macro regex optional \<Rightarrow> True)
      then replay text toks sgs (i + length (covered tok sg)) (bind_seg tok sg caps)
      else None)"
| "replay text toks sgs i caps = None"

section \<open>Driver: empty pattern and failed single replacement\<close>

lemma compile_empty: "compile_pattern L [] = Inr []"
  by (simp add: compile_pattern_def tokenize.simps)

text \<open>
  C7. When the pattern compiles to the empty token list, the four modes return their
  no-op results: the empty list for the query of all matches, the empty bindings for the
  query of the first match, and the input text for both replace modes. The results are
  returned before \<open>match_first\<close> is called.
\<close>

theorem empty_pattern_is_noop:
  assumes "compile_pattern L pattern = Inr []"
  shows "pycomby L text pattern None = Some (Inr (CaptureList []))
       \<and> pycomby_single L text pattern None = Inr (Captures Map.empty)
       \<and> pycomby L text pattern (Some r) = Some (Inr (Rewritten text))
       \<and> pycomby_single L text pattern (Some r) = Inr (Rewritten text)"
  using assms by (simp add: pycomby_def pycomby_single_def)

theorem empty_pattern_is_noop_witness:
  "compile_pattern example_host [] = Inr []
   \<and> pycomby example_host ''hello'' [] None = Some (Inr (CaptureList []))
   \<and> pycomby_single example_host ''hello'' [] None = Inr (Captures Map.empty)
   \<and> pycomby example_host ''hello'' [] (Some ''R'') = Some (Inr (Rewritten ''hello''))
   \<and> pycomby_single example_host ''hello'' [] (Some ''R'') = Inr (Rewritten ''hello'')"
  using empty_pattern_is_noop [OF compile_empty, of example_host "''hello''" "''R''"]
  by (simp add: compile_empty)

lemma match_first_from_fails:
  "\<not> fst (match_first_from text tokens starts) \<Longrightarrow>
   match_first_from text tokens starts = (False, (0, 0), Map.empty)"
  by (induction starts) (auto split: prod.splits if_splits)

text \<open>
  What the single-match replace entry point does when the engine finds no match: the
  span is \<open>(0, 0)\<close> and the bindings are empty, so the template, rendered with no
  bindings, is put in front of the whole input.
\<close>

lemma single_replace_no_match_prepends:
  assumes "compile_pattern L pattern = Inr tokens" and "tokens \<noteq> []"
    and "\<not> fst (match_first text tokens)"
  shows "pycomby_single L text pattern (Some r)
         = Inr (Rewritten (render_template L r Map.empty @ text))"
proof -
  from assms(3) have "match_first text tokens = (False, (0, 0), Map.empty)"
    unfolding match_first_def by (rule match_first_from_fails)
  with assms(1,2) show ?thesis by (simp add: pycomby_single_def)
qed

text \<open>
  C1. The claim is that a single-match replacement returns the input unchanged when the
  engine finds no match. On the text \<open>hello\<close>, the pattern \<open>xyz\<close> (one literal token,
  which matches nowhere) and the template \<open>R\<close>, the entry point returns \<open>Rhello\<close>.
\<close>

theorem single_replace_without_match:
  "(case compile_pattern example_host ''xyz'' of
      Inr tokens \<Rightarrow> tokens \<noteq> [] \<and> fst (match_first ''hello'' tokens) = False
    | Inl e \<Rightarrow> False)
   \<and> pycomby_single example_host ''hello'' ''xyz'' (Some ''R'') = Inr (Rewritten ''Rhello'')"
proof -
  have "case pycomby_single example_host ''hello'' ''xyz'' (Some ''R'') of
          Inr (Rewritten t) \<Rightarrow> t = ''Rhello'' | _ \<Rightarrow> False"
    by code_simp
  then have "pycomby_single example_host ''hello'' ''xyz'' (Some ''R'')
             = Inr (Rewritten ''Rhello'')"
    by (simp split: sum.splits outcome.splits)
  moreover have "case compile_pattern example_host ''xyz'' of
      Inr tokens \<Rightarrow> tokens \<noteq> [] \<and> fst (match_first ''hello'' tokens) = False
    | Inl e \<Rightarrow> False"
    by code_simp
  ultimately show ?thesis by simp
qed

section \<open>Driver: the loop over all matches\<close>

text \<open>
  A named, non-optional wildcard as the only token matches the empty string at position 0
  of every text, the empty text included.
\<close>

lemma upt_Suc_from: "[i ..< Suc (i + n)] = i # [Suc i ..< Suc (i + n)]"
  by (rule upt_conv_Cons) simp

lemma wildcard_matches_empty:
  "match_first text [HoleToken (Some n) None None False] = (True, (0, 0), [n \<mapsto> Some []])"
proof -
  have starts: "[0 ..< Suc (length text)] = 0 # [Suc 0 ..< Suc (length text)]"
    using upt_Suc_from [of 0 "length text"] by simp
  then have ends: "end_iter None None text 0 = 0 # [Suc 0 ..< Suc (length text)]"
    by (simp add: end_iter_def del: upt_Suc)
  have "match_from text [HoleToken (Some n) None None False] 0 0 Map.empty
        = (True, 0, [n \<mapsto> Some []])"
    by (simp add: match_from.simps [of _ _ 0] match_from.simps [of _ _ "Suc 0"] ends
        try_ends.simps slice_def del: upt_Suc)
  then show ?thesis
    by (simp add: match_first_def starts del: upt_Suc)
qed

lemma compile_wildcard:
  "compile_pattern L '':[x]'' = Inr [HoleToken (Some ''x'') None None False]"
  by (simp add: compile_pattern_def tokenize.simps hole_at_def parse_hole_def strip_def
      is_space_def)

lemma wildcard_loop_diverges:
  assumes "pycomby_loop L tokens replacement result_text offset acc = Some y"
  shows "tokens \<noteq> [HoleToken (Some n) None None False]"
proof (rule pycomby_loop.raw_induct
    [where P = "\<lambda>L tokens replacement result_text offset acc y.
                  tokens \<noteq> [HoleToken (Some n) None None False]", OF _ assms], goal_cases)
  case prems: (1 loop L tokens replacement result_text offset acc y)
  show ?case
  proof
    assume t: "tokens = [HoleToken (Some n) None None False]"
    from prems(2) [unfolded t wildcard_matches_empty]
    obtain rt off acc' where "loop L tokens replacement rt off acc' = Some y"
      by (auto simp: t split: option.splits)
    from prems(1) [OF this] t show False by simp
  qed
qed

text \<open>
  C2. The claim is that \<open>pycomby\<close> returns on every input. With the pattern \<open>:[x]\<close> it
  returns on none: the wildcard matches the empty string at the offset, also once the
  offset has passed the end of the text (the slice is then empty and matches again), so
  neither the query loop, whose guard adds one to the offset, nor the replace loop, which
  adds the length of the rendered template, ever sees a failed match.
\<close>

theorem find_all_diverges:
  "pycomby L text '':[x]'' replacement = None"
proof (cases "pycomby_loop L [HoleToken (Some ''x'') None None False] replacement text 0 []")
  case None
  then show ?thesis by (simp add: pycomby_def compile_wildcard)
next
  case (Some y)
  from wildcard_loop_diverges [OF this, of "''x''"] show ?thesis by simp
qed

section \<open>Matcher: optional structural holes, regex macros\<close>

text \<open>
  A structural hole whose balanced scan fails makes the branch fail at once; the
  \<open>optional\<close> flag is not consulted.
\<close>

lemma structural_hole_fails_without_skip:
  assumes "ti < length tokens" and "tokens ! ti = HoleToken name (Some m) regex optional"
    and "STRUCTURAL_MACROS m = Some (open_ch, close_ch, inner_only)"
    and "match_balanced text i open_ch close_ch inner_only = None"
  shows "match_from text tokens ti i caps = (False, i, caps)"
  using assms by (simp add: match_from.simps [of _ tokens ti])

text \<open>
  C3. The claim is that an optional hole of any kind, structural ones included, is
  skipped when no consuming candidate leads to a match. The pattern \<open>:[a:()?]x\<close> compiles
  to an optional structural hole named \<open>a\<close> and the literal \<open>x\<close>. On the text \<open>x\<close> the rest
  of the pattern matches at position 0, so skipping the hole would give a match, but the
  engine finds none and the query returns no binding. The same pattern with the regex
  macro \<open>digit\<close> is skipped and binds \<open>a\<close> to none.
\<close>

theorem optional_structural_hole_not_skipped:
  "(case compile_pattern example_host '':[a:()?]x'' of
      Inr tokens \<Rightarrow>
        length tokens = 2 \<and> hole_optional (tokens ! 0) \<and> hole_name (tokens ! 0) = Some ''a''
        \<and> hole_macro (tokens ! 0) = Some ''()''
        \<and> fst (match_from ''x'' tokens 1 0 Map.empty)
        \<and> fst (match_first ''x'' tokens) = False
    | Inl e \<Rightarrow> False)
   \<and> (case pycomby_single example_host ''x'' '':[a:()?]x'' None of
        Inr (Captures c) \<Rightarrow> c ''a'' = None
      | _ \<Rightarrow> False)
   \<and> (case pycomby_single example_host ''x'' '':[a:digit?]x'' None of
        Inr (Captures c) \<Rightarrow> c ''a'' = Some None
      | _ \<Rightarrow> False)"
  by code_simp

text \<open>The candidates of a constrained hole: from the end of the text down to \<open>i + 1\<close>.\<close>

lemma end_iter_constrained:
  "(\<exists>r. Option.bind macro REGEX_MACROS = Some r) \<or> regex \<noteq> None \<Longrightarrow>
   end_iter macro regex text i = rev [i + 1 ..< length text + 1]"
  by (auto simp: end_iter_def split: option.splits)

text \<open>
  C6. The claim is that a constrained hole accepts a candidate only if the slice fully
  matches the constraint. For a regex macro the test is \<open>^(?:R)$\<close> with \<open>match\<close>, and \<open>$\<close>
  also holds before a final newline: on the text \<open>12\<close> followed by a newline, the hole
  \<open>:[x:digit]\<close> captures all three characters, which \<open>\d+\<close> does not fully match.
\<close>

theorem regex_macro_accepts_trailing_newline:
  "(case REGEX_MACROS ''digit'' of
      Some r \<Rightarrow> rx_fullmatch r ''12\<newline>'' = False \<and> dollar_match r ''12\<newline>''
    | None \<Rightarrow> False)
   \<and> (case pycomby_single example_host ''12\<newline>'' '':[x:digit]'' None of
        Inr (Captures c) \<Rightarrow> c ''x'' = Some (Some ''12\<newline>'')
      | _ \<Rightarrow> False)"
  by code_simp

section \<open>Pattern compiler: the interior of a hole\<close>

lemma split1_first: "c \<notin> set l \<Longrightarrow> split1 c (l @ c # r) = (l, r)"
  by (induction l) (auto simp: split1_def)

lemma strip_Nil: "strip [] = []"
  by (simp add: strip_def)

lemma anonymous_wildcard_matches_empty:
  "match_first text [HoleToken None m None False] = (True, (0, 0), Map.empty)"
  if "Option.bind m STRUCTURAL_MACROS = None" "Option.bind m REGEX_MACROS = None"
proof -
  have starts: "[0 ..< Suc (length text)] = 0 # [Suc 0 ..< Suc (length text)]"
    using upt_Suc_from [of 0 "length text"] by simp
  then have ends: "end_iter m None text 0 = 0 # [Suc 0 ..< Suc (length text)]"
    using that by (cases m) (simp_all add: end_iter_def del: upt_Suc)
  have "match_from text [HoleToken None m None False] 0 0 Map.empty = (True, 0, Map.empty)"
    using that
    by (simp add: match_from.simps [of _ _ 0] match_from.simps [of _ _ "Suc 0"] ends
        try_ends.simps slice_def del: upt_Suc)
  then show ?thesis
    by (simp add: match_first_def starts del: upt_Suc)
qed

text \<open>
  C10. A hole whose content is \<open>~\<close> or \<open>name~\<close>, with nothing after the \<open>~\<close>, compiles
  without an error to a hole with no macro and no regex. The matcher treats it as a plain
  wildcard: its candidate end positions run upwards from the current position, the empty
  slice included, so alone it matches the empty string at position 0 of any text.
\<close>

theorem empty_user_regex_is_wildcard:
  assumes "CHR ''~'' \<notin> set l"
  shows "parse_hole L (l @ ''~'')
           = Inr (HoleToken (if strip l \<noteq> [] \<and> strip l \<noteq> ''_'' then Some (strip l) else None)
                    None None False)
       \<and> end_iter None None text i = [i ..< length text + 1]
       \<and> match_first text [HoleToken (Some n) None None False] = (True, (0, 0), [n \<mapsto> Some []])
       \<and> match_first text [HoleToken None None None False] = (True, (0, 0), Map.empty)"
proof -
  have "split1 CHR ''~'' (l @ ''~'') = (l, [])"
    using split1_first [OF assms, of "[]"] by simp
  then have "parse_hole L (l @ ''~'')
           = Inr (HoleToken (if strip l \<noteq> [] \<and> strip l \<noteq> ''_'' then Some (strip l) else None)
                    None None False)"
    by (simp add: parse_hole_def strip_Nil)
  moreover have "end_iter None None text i = [i ..< length text + 1]"
    by (simp add: end_iter_def)
  ultimately show ?thesis
    using wildcard_matches_empty [of _ n] anonymous_wildcard_matches_empty [of None]
    by simp
qed

theorem empty_user_regex_is_wildcard_witness:
  "CHR ''~'' \<notin> set ''x''
   \<and> parse_hole example_host ''x~'' = Inr (HoleToken (Some ''x'') None None False)
   \<and> end_iter None None ''ab'' 0 = [0, 1, 2]
   \<and> match_first ''ab'' [HoleToken (Some ''x'') None None False] = (True, (0, 0), [''x'' \<mapsto> Some []])"
  using empty_user_regex_is_wildcard [of "''x''" example_host "''ab''" 0 "''x''"]
  by (simp add: strip_def is_space_def upt_rec)

text \<open>
  The result of \<open>parse_hole\<close> on a content \<open>name:identifier\<close> with no \<open>~\<close>, with or without
  the trailing \<open>?\<close>.
\<close>

lemma parse_hole_macro_form:
  assumes "CHR ''~'' \<notin> set nm" and "CHR '':'' \<notin> set nm" and "CHR ''~'' \<notin> set ident"
    and "content0 = nm @ '':'' @ ident @ (if opt then ''?'' else [])"
    and "opt \<or> ident = [] \<or> last ident \<noteq> CHR ''?''"
  shows "parse_hole L content0 =
     (if strip ident \<noteq> [] \<and> REGEX_MACROS (strip ident) = None
          \<and> STRUCTURAL_MACROS (strip ident) = None
      then Inl (UnknownMacro (strip ident))
      else Inr (HoleToken (if strip nm \<noteq> [] \<and> strip nm \<noteq> ''_'' then Some (strip nm) else None)
                  (Some (strip ident)) None opt))"
proof -
  have opt: "(content0 \<noteq> [] \<and> last content0 = CHR ''?'') = opt"
    using assms(4,5) by (cases opt) (auto simp: last_append)
  have content: "(if opt then butlast content0 else content0) = nm @ CHR '':'' # ident"
    using assms(4) by (cases opt) (simp_all add: butlast_append)
  have split: "split1 CHR '':'' (nm @ CHR '':'' # ident) = (nm, ident)"
    using assms(2) by (rule split1_first)
  show ?thesis
    using assms(1,3)
    by (simp only: parse_hole_def Let_def opt content) (simp add: split)
qed

text \<open>
  C4, as stated, fails: the claim includes the empty identifier among those rejected, but
  \<open>parse_hole\<close> tests the macro for being non-empty before it looks it up, and the
  content \<open>x:\<close> compiles to a hole that carries the empty macro.
\<close>

theorem empty_macro_counterexample:
  "parse_hole example_host ''x:'' = Inr (HoleToken (Some ''x'') (Some []) None False)
   \<and> REGEX_MACROS [] = None \<and> STRUCTURAL_MACROS [] = None"
  by (simp add: parse_hole_def split1_def strip_def is_space_def REGEX_MACROS_def
      STRUCTURAL_MACROS_def)

text \<open>
  C4, amended. For a content \<open>name:identifier\<close> or \<open>:identifier\<close> (no \<open>~\<close> in it, an
  optional mark \<open>?\<close> at the end or not), compilation fails with \<open>UnknownMacro\<close>, whatever
  the name the error carries, exactly when the identifier, stripped of surrounding
  whitespace, is not empty and is neither a regex macro nor a structural macro; it fails in
  no other way; the error then carries the stripped identifier; and in every other case
  the result is the hole with its name, the stripped identifier as its macro, no regex and
  its optional mark. With an empty identifier compilation succeeds; the hole carries the
  empty macro and its candidates are those of a plain wildcard.
\<close>

theorem unknown_macro_iff_nonempty:
  assumes "CHR ''~'' \<notin> set nm" and "CHR '':'' \<notin> set nm" and "CHR ''~'' \<notin> set ident"
    and "content0 = nm @ '':'' @ ident @ (if opt then ''?'' else [])"
    and "opt \<or> ident = [] \<or> last ident \<noteq> CHR ''?''"
  shows "(\<exists>m. parse_hole L content0 = Inl (UnknownMacro m))
           = (strip ident \<noteq> [] \<and> REGEX_MACROS (strip ident) = None
                \<and> STRUCTURAL_MACROS (strip ident) = None)
       \<and> (\<exists>e. parse_hole L content0 = Inl e)
           = (strip ident \<noteq> [] \<and> REGEX_MACROS (strip ident) = None
                \<and> STRUCTURAL_MACROS (strip ident) = None)
       \<and> (parse_hole L content0 = Inl (UnknownMacro (strip ident)))
           = (strip ident \<noteq> [] \<and> REGEX_MACROS (strip ident) = None
                \<and> STRUCTURAL_MACROS (strip ident) = None)
       \<and> parse_hole L content0 =
           (if strip ident \<noteq> [] \<and> REGEX_MACROS (strip ident) = None
                \<and> STRUCTURAL_MACROS (strip ident) = None
            then Inl (UnknownMacro (strip ident))
            else Inr (HoleToken (if strip nm \<noteq> [] \<and> strip nm \<noteq> ''_'' then Some (strip nm) else None)
                        (Some (strip ident)) None opt))
       \<and> (strip ident = [] \<longrightarrow>
            parse_hole L content0
              = Inr (HoleToken (if strip nm \<noteq> [] \<and> strip nm \<noteq> ''_'' then Some (strip nm) else None)
                       (Some []) None opt)
            \<and> end_iter (Some []) None text i = [i ..< length text + 1])"
  using parse_hole_macro_form [OF assms, of L]
  by (auto simp: end_iter_def REGEX_MACROS_def)

theorem unknown_macro_iff_nonempty_witness:
  "(\<exists>m. parse_hole example_host ''x:unknown_macro'' = Inl (UnknownMacro m))
   \<and> parse_hole example_host ''x:unknown_macro'' = Inl (UnknownMacro ''unknown_macro'')
   \<and> \<not> (\<exists>m. parse_hole example_host ''x:digit'' = Inl (UnknownMacro m))
   \<and> parse_hole example_host ''x:digit'' = Inr (HoleToken (Some ''x'') (Some ''digit'') None False)
   \<and> parse_hole example_host ''x:?'' = Inr (HoleToken (Some ''x'') (Some []) None True)
   \<and> end_iter (Some []) None ''ab'' 1 = [1, 2]"
proof -
  have a: "strip ''unknown_macro'' = ''unknown_macro''" "strip ''x'' = ''x''" "strip [] = []"
    "strip ''digit'' = ''digit''"
    by (simp_all add: strip_def is_space_def)
  have b: "REGEX_MACROS ''unknown_macro'' = None" "STRUCTURAL_MACROS ''unknown_macro'' = None"
    "REGEX_MACROS ''digit'' \<noteq> None"
    by (simp_all add: REGEX_MACROS_def STRUCTURAL_MACROS_def)
  show ?thesis
    using unknown_macro_iff_nonempty [of "''x''" "''unknown_macro''" "''x:unknown_macro''" False
        example_host "''ab''" 1]
      unknown_macro_iff_nonempty [of "''x''" "''digit''" "''x:digit''" False example_host "''ab''" 1]
      unknown_macro_iff_nonempty [of "''x''" "[]" "''x:?''" True example_host "''ab''" 1]
    by (simp add: a b upt_rec)
qed

section \<open>Template renderer\<close>

text \<open>The loop over the operation names computes the fold of the specification.\<close>

lemma foldl_None:
  "foldl (\<lambda>acc op_name. case acc of None \<Rightarrow> None | Some x \<Rightarrow> g op_name x) None ops = None"
  by (induction ops) simp_all

lemma apply_ops_spec: "apply_ops L ops v = spec_fold_ops L ops v"
  unfolding spec_fold_ops_def
proof (induction ops arbitrary: v)
  case Nil
  show ?case by simp
next
  case (Cons op_name ops)
  show ?case
    by (simp add: Cons.IH foldl_None split: option.splits)
qed

lemma spec_fold_ops_append:
  "spec_fold_ops L (xs @ ys) v =
     (case spec_fold_ops L xs v of None \<Rightarrow> None | Some w \<Rightarrow> spec_fold_ops L ys w)"
  by (simp add: spec_fold_ops_def foldl_None split: option.splits)

lemma spec_fold_ops_Cons:
  "spec_fold_ops L (x # ys) v =
     (case OPERATIONS L x of None \<Rightarrow> None
      | Some func \<Rightarrow> (case func v of None \<Rightarrow> None | Some w \<Rightarrow> spec_fold_ops L ys w))"
  by (simp add: spec_fold_ops_def foldl_None split: option.splits)

lemma unknown_op_no_value:
  "\<exists>op_name \<in> set ops. OPERATIONS L op_name = None \<Longrightarrow> spec_fold_ops L ops v = None"
  by (induction ops arbitrary: v) (auto simp: spec_fold_ops_Cons split: option.splits)

lemma op_raises_no_value: "op_raises L ops v \<Longrightarrow> spec_fold_ops L ops v = None"
  by (auto simp: op_raises_def spec_fold_ops_append spec_fold_ops_Cons)

lemma no_value_cases:
  "spec_fold_ops L ops v = None \<Longrightarrow>
   (\<exists>op_name \<in> set ops. OPERATIONS L op_name = None) \<or> op_raises L ops v"
proof (induction ops arbitrary: v)
  case Nil
  then show ?case by (simp add: spec_fold_ops_def)
next
  case (Cons x ops)
  show ?case
  proof (cases "OPERATIONS L x")
    case None
    then show ?thesis by simp
  next
    case (Some func)
    show ?thesis
    proof (cases "func v")
      case None
      have "x # ops = [] @ x # ops \<and> spec_fold_ops L [] v = Some v"
        by (simp add: spec_fold_ops_def)
      with Some None have "op_raises L (x # ops) v"
        unfolding op_raises_def by blast
      then show ?thesis by simp
    next
      case w: (Some w)
      with Some Cons.prems have "spec_fold_ops L ops w = None"
        by (simp add: spec_fold_ops_Cons)
      from Cons.IH [OF this] show ?thesis
      proof
        assume "\<exists>op_name\<in>set ops. OPERATIONS L op_name = None"
        then show ?thesis by auto
      next
        assume "op_raises L ops w"
        then obtain before op_name later g u where
          "ops = before @ op_name # later" "spec_fold_ops L before w = Some u"
          "OPERATIONS L op_name = Some g" "g u = None"
          unfolding op_raises_def by blast
        with Some w have "x # ops = (x # before) @ op_name # later
            \<and> spec_fold_ops L (x # before) v = Some u
            \<and> OPERATIONS L op_name = Some g \<and> g u = None"
          by (simp add: spec_fold_ops_Cons)
        then have "op_raises L (x # ops) v"
          unfolding op_raises_def by blast
        then show ?thesis by simp
      qed
    qed
  qed
qed

lemma render_no_placeholder:
  "placeholder_at (x # xs) = None \<Longrightarrow>
   render_template L (x # xs) caps = x # render_template L xs caps"
  by (simp add: render_template.simps(2))

lemma hole_at_placeholder:
  assumes "CHR '']'' \<notin> set content"
  shows "hole_at ('':['' @ content @ '']'' @ rest) = Some (content, rest)"
proof -
  have "\<And>x. x \<in> set content \<Longrightarrow> x \<noteq> CHR '']''"
    using assms by auto
  then show ?thesis by (simp add: hole_at_def)
qed

lemma hole_at_append:
  assumes "hole_at s = Some (content, after)"
  shows "hole_at (s @ t) = Some (content, after @ t)"
proof -
  from assms obtain r x where s: "s = CHR '':'' # CHR ''['' # r"
    and d: "dropWhile (\<lambda>c. c \<noteq> CHR '']'') r = x # after"
    and c: "content = takeWhile (\<lambda>c. c \<noteq> CHR '']'') r"
    by (auto simp: hole_at_def split: list.splits if_splits)
  from d have "dropWhile (\<lambda>c. c \<noteq> CHR '']'') r \<noteq> []"
    by simp
  then have ex: "\<exists>y \<in> set r. \<not> y \<noteq> CHR '']''"
    by (simp add: dropWhile_eq_Nil_conv)
  then obtain y where y: "y \<in> set r" "\<not> y \<noteq> CHR '']''"
    by blast
  have "dropWhile (\<lambda>c. c \<noteq> CHR '']'') (r @ t) = x # after @ t"
    using dropWhile_append1 [of y r "\<lambda>c. c \<noteq> CHR '']''" t] y d by simp
  moreover have "takeWhile (\<lambda>c. c \<noteq> CHR '']'') (r @ t) = content"
    using takeWhile_append1 [of y r "\<lambda>c. c \<noteq> CHR '']''" t] y c by simp
  ultimately show ?thesis
    by (simp add: hole_at_def s)
qed

lemma placeholder_at_no_opener:
  "a \<noteq> CHR '':'' \<or> b \<noteq> CHR ''['' \<Longrightarrow> placeholder_at (a # b # cs) = None"
  by (auto simp: placeholder_at_def hole_at_def)

lemma placeholder_at_single:
  "s = [] \<or> hd s \<noteq> CHR ''['' \<Longrightarrow> placeholder_at (a # s) = None"
  by (cases s) (auto simp: placeholder_at_def hole_at_def)

text \<open>
  The renderer over a closed prefix: what follows the prefix is rendered on its own.
\<close>

lemma render_closed_prefix:
  "closed_prefix pre \<Longrightarrow> s = [] \<or> hd s \<noteq> CHR ''['' \<Longrightarrow>
   render_template L (pre @ s) caps = render_template L pre caps @ render_template L s caps"
proof (induction pre rule: closed_prefix.induct)
  case 1
  then show ?case by simp
next
  case (2 a)
  from placeholder_at_single [OF "2.prems"(2), of a] placeholder_at_single [of "[]" a]
  show ?case by (simp add: render_no_placeholder)
next
  case (3 a b cs)
  show ?case
  proof (cases "a = CHR '':'' \<and> b = CHR ''[''")
    case False
    then have n: "placeholder_at (a # b # cs @ s) = None" "placeholder_at (a # b # cs) = None"
      by (auto intro: placeholder_at_no_opener)
    from False "3.prems" have "closed_prefix (b # cs)"
      by auto
    from "3.IH"(3) [OF False this "3.prems"(2)] n
    show ?thesis by (simp add: render_no_placeholder)
  next
    case True
    with "3.prems"(1) obtain content after where h: "hole_at (a # b # cs) = Some (content, after)"
      by (auto split: option.splits)
    from hole_at_append [OF h, of s]
    have hs: "hole_at (a # b # cs @ s) = Some (content, after @ s)"
      by simp
    show ?thesis
    proof (cases "content = []")
      case e: True
      from h hs e
      have n: "placeholder_at (a # b # cs @ s) = None" "placeholder_at (a # b # cs) = None"
        by (simp_all add: placeholder_at_def)
      from True h e "3.prems"(1) have "closed_prefix (b # cs)"
        by simp
      from "3.IH"(1) [OF True h refl e this "3.prems"(2)] n
      show ?thesis by (simp add: render_no_placeholder)
    next
      case ne: False
      from h hs ne
      have p: "placeholder_at (a # b # cs @ s) = Some (content, after @ s)"
        "placeholder_at (a # b # cs) = Some (content, after)"
        by (simp_all add: placeholder_at_def)
      from True h ne "3.prems"(1) have "closed_prefix after"
        by simp
      from "3.IH"(2) [OF True h refl ne this "3.prems"(2)] p
      show ?thesis by (simp add: render_template.simps(2))
    qed
  qed
qed

lemma render_placeholder:
  assumes "content \<noteq> []" and "CHR '']'' \<notin> set content" and "closed_prefix pre"
  shows "render_template L (pre @ '':['' @ content @ '']'' @ rest) caps
         = render_template L pre caps @ replacer L caps content @ render_template L rest caps"
proof -
  have "render_template L ('':['' @ content @ '']'' @ rest) caps
        = replacer L caps content @ render_template L rest caps"
    using assms(1) hole_at_placeholder [OF assms(2), of rest]
    by (simp add: placeholder_at_def render_template.simps(2))
  moreover have "render_template L (pre @ '':['' @ content @ '']'' @ rest) caps
        = render_template L pre caps @ render_template L ('':['' @ content @ '']'' @ rest) caps"
    by (rule render_closed_prefix [OF assms(3)]) simp
  ultimately show ?thesis by simp
qed

text \<open>
  A prefix that is not closed ends inside a placeholder that the scan has begun: it is a
  closed prefix, then \<open>:[\<close>, then a text without \<open>]\<close>. The placeholder found there runs to
  the first \<open>]\<close> of what follows, so an occurrence of \<open>:[content]\<close> right after such a
  prefix is no match of the placeholder regex but a part of that longer one.
\<close>

lemma open_prefix_form:
  "\<not> closed_prefix pre \<Longrightarrow>
   \<exists>p1 p2. pre = p1 @ '':['' @ p2 \<and> CHR '']'' \<notin> set p2 \<and> closed_prefix p1"
proof (induction pre rule: closed_prefix.induct)
  case 1
  then show ?case by simp
next
  case (2 a)
  then show ?case by simp
next
  case (3 a b cs)
  show ?case
  proof (cases "a = CHR '':'' \<and> b = CHR ''[''")
    case False
    with "3.prems" have o: "\<not> closed_prefix (b # cs)"
      by auto
    from "3.IH"(3) [OF False o] obtain p1 p2 where
      f: "b # cs = p1 @ '':['' @ p2" "CHR '']'' \<notin> set p2" "closed_prefix p1"
      by blast
    have "p1 = [] \<or> hd p1 \<noteq> CHR ''['' \<or> a \<noteq> CHR '':''"
      using f(1) False by (cases p1) auto
    then have "closed_prefix (a # p1)"
      using f(3) by (cases p1) auto
    with f have "a # b # cs = (a # p1) @ '':['' @ p2 \<and> CHR '']'' \<notin> set p2
        \<and> closed_prefix (a # p1)"
      by simp
    then show ?thesis by blast
  next
    case True
    show ?thesis
    proof (cases "hole_at (a # b # cs)")
      case None
      with True have "CHR '']'' \<notin> set cs"
        by (auto simp: hole_at_def dropWhile_eq_Nil_conv split: list.splits)
      with True have "a # b # cs = [] @ '':['' @ cs \<and> CHR '']'' \<notin> set cs \<and> closed_prefix []"
        by simp
      then show ?thesis by blast
    next
      case (Some ca)
      obtain content after where ca: "ca = (content, after)"
        by (cases ca)
      note h = Some [unfolded ca]
      from h True obtain x where d: "dropWhile (\<lambda>c. c \<noteq> CHR '']'') cs = x # after"
        and c: "content = takeWhile (\<lambda>c. c \<noteq> CHR '']'') cs"
        by (auto simp: hole_at_def split: list.splits)
      from hd_dropWhile [of "\<lambda>c. c \<noteq> CHR '']''" cs] d have "x = CHR '']''"
        by simp
      with d c takeWhile_dropWhile_id [of "\<lambda>c. c \<noteq> CHR '']''" cs]
      have cs: "cs = content @ CHR '']'' # after"
        by simp
      have nb: "CHR '']'' \<notin> set content"
        unfolding c by (auto dest: set_takeWhileD)
      show ?thesis
      proof (cases "content = []")
        case e: True
        with True h "3.prems" have o: "\<not> closed_prefix (b # cs)"
          by simp
        from "3.IH"(1) [OF True h refl e o] obtain p1 p2 where
          f: "b # cs = p1 @ '':['' @ p2" "CHR '']'' \<notin> set p2" "closed_prefix p1"
          by blast
        from f(1) cs e obtain q where q: "p1 = b # CHR '']'' # q"
          using True by (cases p1; cases "tl p1") auto
        have "hole_at (a # b # CHR '']'' # q) = Some ([], q)"
          using True by (simp add: hole_at_def)
        then have "closed_prefix (a # p1)"
          using f(3) True q by simp
        with f have "a # b # cs = (a # p1) @ '':['' @ p2 \<and> CHR '']'' \<notin> set p2
            \<and> closed_prefix (a # p1)"
          by simp
        then show ?thesis by blast
      next
        case ne: False
        with True h "3.prems" have o: "\<not> closed_prefix after"
          by simp
        from "3.IH"(2) [OF True h refl ne o] obtain p1 p2 where
          f: "after = p1 @ '':['' @ p2" "CHR '']'' \<notin> set p2" "closed_prefix p1"
          by blast
        have "hole_at (a # b # content @ CHR '']'' # p1) = Some (content, p1)"
          using hole_at_placeholder [OF nb, of p1] True by simp
        then have "closed_prefix (a # b # content @ CHR '']'' # p1)"
          using f(3) True ne by simp
        with f cs have "a # b # cs = (a # b # content @ CHR '']'' # p1) @ '':['' @ p2
            \<and> CHR '']'' \<notin> set p2 \<and> closed_prefix (a # b # content @ CHR '']'' # p1)"
          by simp
        then show ?thesis by blast
      qed
    qed
  qed
qed

lemma render_open_prefix:
  assumes "\<not> closed_prefix pre" and "CHR '']'' \<notin> set content"
  shows "\<exists>p1 p2. pre = p1 @ '':['' @ p2 \<and> closed_prefix p1
           \<and> render_template L (pre @ '':['' @ content @ '']'' @ rest) caps
               = render_template L p1 caps @ replacer L caps (p2 @ '':['' @ content)
                   @ render_template L rest caps"
proof -
  from open_prefix_form [OF assms(1)] obtain p1 p2 where
    f: "pre = p1 @ '':['' @ p2" "CHR '']'' \<notin> set p2" "closed_prefix p1"
    by blast
  have "CHR '']'' \<notin> set (p2 @ '':['' @ content)"
    using f(2) assms(2) by simp
  from render_placeholder [OF _ this f(3), of L rest caps] f(1)
  have "render_template L (pre @ '':['' @ content @ '']'' @ rest) caps
      = render_template L p1 caps @ replacer L caps (p2 @ '':['' @ content)
          @ render_template L rest caps"
    by simp
  with f show ?thesis by blast
qed

text \<open>
  The example host at its limit: \<open>int\<close> reads a string of as many nines as the limit
  allows, and \<open>str\<close> raises on the number that \<open>inc\<close> makes of it, which has one digit
  more.
\<close>

lemma dec_nat_length: "10 ^ k \<le> n \<Longrightarrow> k < length (dec_nat n)"
proof (induction k arbitrary: n)
  case 0
  show ?case by (subst dec_nat.simps) simp
next
  case (Suc k)
  from Suc.prems have "10 * 10 ^ k \<le> n" by simp
  then have "10 ^ k \<le> n div 10" by simp
  from Suc.IH [OF this] have "k < length (dec_nat (n div 10))" .
  moreover have "\<not> n < 10"
  proof
    assume "n < 10"
    moreover have "(1::nat) \<le> 10 ^ k" by simp
    ultimately show False using \<open>10 * 10 ^ k \<le> n\<close> by simp
  qed
  ultimately show ?case by (subst dec_nat.simps) simp
qed

lemma digits_value_nines:
  "foldl (\<lambda>a c. 10 * a + (of_char c - 48)) a (replicate k CHR ''9'') = (a + 1) * 10 ^ k - (1::int)"
  by (induction k arbitrary: a) (simp_all add: algebra_simps)

lemma int_of_str_nines:
  assumes "Suc j \<le> max_str_digits"
  shows "int_of_str (replicate (Suc j) CHR ''9'') = Some (10 ^ Suc j - 1)"
proof -
  have d: "is_digit CHR ''9''" by (simp add: is_digit_def)
  have f: "filter is_digit (replicate (Suc j) CHR ''9'') = replicate (Suc j) CHR ''9''"
    using d by (simp only: filter_replicate if_True)
  have l: "list_all is_digit (replicate (Suc j) CHR ''9'')"
    using d by (simp add: list_all_iff)
  have "parse_int (CHR ''9'' # replicate j CHR ''9'') = Some (10 ^ Suc j - 1)"
    using l digits_value_nines [of 0 "Suc j"]
    by (simp add: parse_int_def digits_value_def)
  then show ?thesis
    using assms by (simp add: int_of_str_def f)
qed

lemma str_of_int_limit: "max_str_digits \<le> k \<Longrightarrow> str_of_int (10 ^ k) = None"
  using dec_nat_length [of k "10 ^ k"]
  by (simp add: str_of_int_def nat_power_eq)

lemma inc_at_limit:
  "spec_fold_ops example_host [''inc''] (replicate max_str_digits CHR ''9'') = None"
proof -
  obtain j where j: "max_str_digits = Suc j"
    by (cases max_str_digits) (simp_all add: max_str_digits_def)
  have "int_of_str (replicate (Suc j) CHR ''9'') = Some (10 ^ Suc j - 1)"
    by (rule int_of_str_nines) (simp add: j)
  moreover have "str_of_int (10 ^ Suc j) = None"
    by (rule str_of_int_limit) (simp add: j)
  ultimately show ?thesis
    by (simp add: spec_fold_ops_def OPERATIONS_def example_host_def j)
qed

text \<open>
  C8. Take a placeholder of a template: an occurrence \<open>:[content]\<close>, with a content of at
  least one character and no \<open>]\<close>, that the scan of the placeholder regex reaches, which
  is to say after a closed prefix \<open>pre\<close> (any text, with placeholders of its own and with
  occurrences of \<open>:[]\<close>, that does not end inside a placeholder). Its content splits on
  \<open>.\<close> into the capture name and the operation names. The template renders as the
  rendering of the prefix, what is emitted for the placeholder, and the rendering of the
  rest. If the name is absent from the bindings or bound to none, the placeholder is
  emitted verbatim with its brackets. If the name is bound to a string, the placeholder is
  emitted verbatim when some operation name is unknown or some operation raises, and
  otherwise what is emitted is the captured string with all the operations folded over it
  from left to right. Nothing else is ever emitted for the placeholder, so no partially
  applied result is.
\<close>

theorem placeholder_rendering:
  assumes "content \<noteq> []" and "CHR '']'' \<notin> set content" and "closed_prefix pre"
    and "split_on CHR ''.'' content = field # ops"
  shows "(caps field = None \<or> caps field = Some None \<longrightarrow>
            render_template L (pre @ '':['' @ content @ '']'' @ rest) caps
              = render_template L pre caps @ '':['' @ content @ '']''
                  @ render_template L rest caps)
       \<and> (\<forall>v. caps field = Some (Some v) \<longrightarrow>
            (if (\<exists>op_name \<in> set ops. OPERATIONS L op_name = None) \<or> op_raises L ops v
             then render_template L (pre @ '':['' @ content @ '']'' @ rest) caps
                    = render_template L pre caps @ '':['' @ content @ '']''
                        @ render_template L rest caps
             else \<exists>r. spec_fold_ops L ops v = Some r
                    \<and> render_template L (pre @ '':['' @ content @ '']'' @ rest) caps
                        = render_template L pre caps @ r @ render_template L rest caps))"
proof -
  note r = render_placeholder [OF assms(1-3), of L rest caps]
  have absent: "caps field = None \<or> caps field = Some None \<Longrightarrow>
      replacer L caps content = '':['' @ content @ '']''"
    by (auto simp: replacer_def assms(4))
  have bound: "replacer L caps content =
      (case spec_fold_ops L ops v of None \<Rightarrow> '':['' @ content @ '']'' | Some r \<Rightarrow> r)"
    if "caps field = Some (Some v)" for v
    using that by (simp add: replacer_def assms(4) apply_ops_spec)
  show ?thesis
  proof (intro conjI allI impI)
    assume "caps field = None \<or> caps field = Some None"
    from absent [OF this] r
    show "render_template L (pre @ '':['' @ content @ '']'' @ rest) caps
        = render_template L pre caps @ '':['' @ content @ '']'' @ render_template L rest caps"
      by simp
  next
    fix v
    assume v: "caps field = Some (Some v)"
    show "if (\<exists>op_name \<in> set ops. OPERATIONS L op_name = None) \<or> op_raises L ops v
          then render_template L (pre @ '':['' @ content @ '']'' @ rest) caps
                 = render_template L pre caps @ '':['' @ content @ '']''
                     @ render_template L rest caps
          else \<exists>r. spec_fold_ops L ops v = Some r
                 \<and> render_template L (pre @ '':['' @ content @ '']'' @ rest) caps
                     = render_template L pre caps @ r @ render_template L rest caps"
    proof (cases "spec_fold_ops L ops v")
      case None
      from no_value_cases [OF None] None r show ?thesis
        by (simp add: bound [OF v])
    next
      case (Some x)
      have "\<not> (\<exists>op_name \<in> set ops. OPERATIONS L op_name = None)"
      proof
        assume "\<exists>op_name \<in> set ops. OPERATIONS L op_name = None"
        from unknown_op_no_value [OF this, of v] Some show False by simp
      qed
      moreover have "\<not> op_raises L ops v"
      proof
        assume "op_raises L ops v"
        from op_raises_no_value [OF this] Some show False by simp
      qed
      ultimately have c:
        "((\<exists>op_name \<in> set ops. OPERATIONS L op_name = None) \<or> op_raises L ops v) = False"
        by blast
      show ?thesis
        using Some r by (simp only: c if_False) (simp add: bound [OF v])
    qed
  qed
qed

theorem placeholder_rendering_witness:
  \<open>render_template example_host ''{"tags":[],"name":":[name.upper]"}'' [''name'' \<mapsto> Some ''v'']
     = ''{"tags":[],"name":"V"}''
   \<and> render_template example_host '':[n.inc]-:[]-:[x.upper.strip]''
         [''n'' \<mapsto> Some ''9'', ''x'' \<mapsto> Some '' v'']
     = ''10-:[]-V''
   \<and> render_template example_host ''a :[x.bogus] b'' [''x'' \<mapsto> Some ''v''] = ''a :[x.bogus] b''
   \<and> render_template example_host ''a :[x.upper.inc] b'' [''x'' \<mapsto> Some ''v'']
     = ''a :[x.upper.inc] b''
   \<and> render_template example_host ''a :[y] b'' [''x'' \<mapsto> Some ''v''] = ''a :[y] b''
   \<and> render_template example_host ''a :[x.upper] b'' [''x'' \<mapsto> None] = ''a :[x.upper] b''
   \<and> render_template example_host ''a :[x.inc] b''
         [''x'' \<mapsto> Some (replicate max_str_digits CHR ''9'')]
     = ''a :[x.inc] b''\<close>
proof -
  have tail: "render_template example_host '' b'' caps = '' b''"
    \<open>render_template example_host ''"}'' caps = ''"}''\<close>
    "render_template example_host [] caps = []" for caps
    by (simp_all add: render_no_placeholder placeholder_at_def hole_at_def)
  have pre: \<open>closed_prefix ''{"tags":[],"name":"''\<close> "closed_prefix '':[n.inc]-:[]-''"
    "closed_prefix ''a ''"
    by code_simp+
  have rpre: \<open>render_template example_host ''{"tags":[],"name":"'' caps = ''{"tags":[],"name":"''\<close>
    "render_template example_host ''a '' caps = ''a ''" for caps
    by (simp_all add: render_template.simps(2) placeholder_at_def hole_at_def)
  have rpre2: "render_template example_host '':[n.inc]-:[]-''
      [''n'' \<mapsto> Some ''9'', ''x'' \<mapsto> Some '' v''] = ''10-:[]-''"
    by code_simp
  have sp: "split_on CHR ''.'' ''name.upper'' = [''name'', ''upper'']"
    "split_on CHR ''.'' ''x.upper.strip'' = [''x'', ''upper'', ''strip'']"
    "split_on CHR ''.'' ''x.bogus'' = [''x'', ''bogus'']"
    "split_on CHR ''.'' ''x.upper.inc'' = [''x'', ''upper'', ''inc'']"
    "split_on CHR ''.'' ''x.upper'' = [''x'', ''upper'']"
    "split_on CHR ''.'' ''y'' = [''y'']"
    "split_on CHR ''.'' ''x.inc'' = [''x'', ''inc'']"
    by code_simp+
  have up: "spec_fold_ops example_host [''upper''] ''v'' = Some ''V''"
    "spec_fold_ops example_host [''upper'', ''strip''] '' v'' = Some ''V''"
    by code_simp+
  have inc: "spec_fold_ops example_host [''upper'', ''inc''] ''v'' = None"
    by code_simp
  have known: "OPERATIONS example_host ''upper'' \<noteq> None" "OPERATIONS example_host ''inc'' \<noteq> None"
    "OPERATIONS example_host ''strip'' \<noteq> None"
    "OPERATIONS example_host ''bogus'' = None"
    by (simp_all add: OPERATIONS_def)
  from no_value_cases [OF inc] known
  have raises: "op_raises example_host [''upper'', ''inc''] ''v''"
    by simp
  from no_value_cases [OF inc_at_limit] known
  have str_raises: "op_raises example_host [''inc''] (replicate max_str_digits CHR ''9'')"
    by simp
  have not_raises: "\<not> op_raises example_host [''upper''] ''v''"
    "\<not> op_raises example_host [''upper'', ''strip''] '' v''"
    using op_raises_no_value [of example_host "[''upper'']" "''v''"]
      op_raises_no_value [of example_host "[''upper'', ''strip'']" "'' v''"] up by auto
  show ?thesis
    using
      placeholder_rendering [of "''name.upper''" \<open>''{"tags":[],"name":"''\<close> "''name''" "[''upper'']"
        "[''name'' \<mapsto> Some ''v'']" example_host \<open>''"}''\<close>]
      placeholder_rendering [of "''x.upper.strip''" "'':[n.inc]-:[]-''" "''x''" "[''upper'', ''strip'']"
        "[''n'' \<mapsto> Some ''9'', ''x'' \<mapsto> Some '' v'']" example_host "[]"]
      placeholder_rendering [of "''x.bogus''" "''a ''" "''x''" "[''bogus'']"
        "[''x'' \<mapsto> Some ''v'']" example_host "'' b''"]
      placeholder_rendering [of "''x.upper.inc''" "''a ''" "''x''" "[''upper'', ''inc'']"
        "[''x'' \<mapsto> Some ''v'']" example_host "'' b''"]
      placeholder_rendering [of "''y''" "''a ''" "''y''" "[]"
        "[''x'' \<mapsto> Some ''v'']" example_host "'' b''"]
      placeholder_rendering [of "''x.upper''" "''a ''" "''x''" "[''upper'']"
        "[''x'' \<mapsto> None]" example_host "'' b''"]
      placeholder_rendering [of "''x.inc''" "''a ''" "''x''" "[''inc'']"
        "[''x'' \<mapsto> Some (replicate max_str_digits CHR ''9'')]" example_host "'' b''"]
    by (simp add: tail pre rpre rpre2 sp up known raises str_raises not_raises
        del: closed_prefix.simps)
qed

section \<open>Balanced scanner\<close>

lemma slice_one: "p < length t \<Longrightarrow> slice t p (Suc p) = [t ! p]"
  by (simp add: slice_def take_Suc_conv_app_nth flip: Cons_nth_drop_Suc)

lemma slice_two: "Suc p < length t \<Longrightarrow> slice t p (Suc (Suc p)) = [t ! p, t ! Suc p]"
  by (simp add: slice_def flip: Cons_nth_drop_Suc)

lemma slice_two_end: "Suc p = length t \<Longrightarrow> slice t p (Suc (Suc p)) = [t ! p]"
  by (simp add: slice_def flip: Cons_nth_drop_Suc)

lemma slice_append: "p \<le> q \<Longrightarrow> q \<le> e \<Longrightarrow> slice t p e = slice t p q @ slice t q e"
proof -
  assume a: "p \<le> q" "q \<le> e"
  then have "e - p = (q - p) + (e - q)" by simp
  then have "take (e - p) (drop p t) = take (q - p) (drop p t) @ take (e - q) (drop (q - p) (drop p t))"
    by (simp only: take_add)
  with a show ?thesis by (simp add: slice_def)
qed

lemma scan_step_Inl:
  assumes pd: "plain_delims oc cc" and p: "pos s < length text" and om: "one_mode s"
    and oo: "outside_only oc cc (mode_of s) (drop (pos s) text)"
    and st: "scan_step text oc cc inner start s = Inl s'"
  shows "one_mode s' \<and> outside_only oc cc (mode_of s') (drop (pos s') text) \<and> pos s < pos s'
       \<and> int (count_list (slice text (pos s) (pos s')) oc) + depth s
           = int (count_list (slice text (pos s) (pos s')) cc) + depth s'"
proof -
  note defs = scan_step_def Let_def mode_of_def one_mode_def plain_delims_def
  have d: "drop (pos s) text = text ! pos s # drop (Suc (pos s)) text"
    using p by (simp add: Cons_nth_drop_Suc)
  consider (str) q where "in_string s = Some q"
    | (lc) "in_string s = None" "in_line_comment s"
    | (bc) "in_string s = None" "\<not> in_line_comment s" "in_block_comment s"
    | (code) "in_string s = None" "\<not> in_line_comment s" "\<not> in_block_comment s"
    by (cases "in_string s") auto
  then show ?thesis
  proof cases
    case str
    show ?thesis
    proof (cases "drop (Suc (pos s)) text")
      case Nil
      then have e: "length text = Suc (pos s)" using p by simp
      have s1: "slice text (pos s) (Suc (pos s)) = [text ! pos s]"
        and s2: "slice text (pos s) (Suc (Suc (pos s))) = [text ! pos s]"
        using p e by (simp_all add: slice_one slice_two_end)
      have n: "\<not> Suc (pos s) < length text" "drop (Suc (Suc (pos s))) text = []"
        using e by simp_all
      show ?thesis
        using pd om oo st str
        by (auto simp: defs d Nil s1 s2 n split: if_splits)
    next
      case (Cons y ys)
      then have l: "Suc (pos s) < length text"
        by (metis drop_eq_Nil2 list.distinct(1) not_le)
      have y: "text ! Suc (pos s) = y" and ys: "drop (Suc (Suc (pos s))) text = ys"
        using Cons l by (simp_all flip: Cons_nth_drop_Suc)
      show ?thesis
        using pd om oo st str l
        by (auto simp: defs d Cons y ys slice_one slice_two p split: if_splits)
    qed
  next
    case lc
    show ?thesis
    proof (cases "drop (Suc (pos s)) text")
      case Nil
      then have e: "length text = Suc (pos s)" using p by simp
      have s1: "slice text (pos s) (Suc (pos s)) = [text ! pos s]"
        using p by (simp add: slice_one)
      show ?thesis
        using pd om oo st lc
        by (auto simp: defs d Nil s1 split: if_splits)
    next
      case (Cons y ys)
      have s1: "slice text (pos s) (Suc (pos s)) = [text ! pos s]"
        using p by (simp add: slice_one)
      show ?thesis
        using pd om oo st lc
        by (auto simp: defs d Cons s1 split: if_splits)
    qed
  next
    case bc
    show ?thesis
    proof (cases "drop (Suc (pos s)) text")
      case Nil
      then have e: "length text = Suc (pos s)" using p by simp
      have s1: "slice text (pos s) (Suc (pos s)) = [text ! pos s]"
        using p by (simp add: slice_one)
      have n: "\<not> Suc (pos s) < length text"
        using e by simp
      show ?thesis
        using pd om oo st bc
        by (auto simp: defs d Nil s1 n split: if_splits)
    next
      case (Cons y ys)
      then have l: "Suc (pos s) < length text"
        by (metis drop_eq_Nil2 list.distinct(1) not_le)
      have y: "text ! Suc (pos s) = y" and ys: "drop (Suc (Suc (pos s))) text = ys"
        using Cons l by (simp_all flip: Cons_nth_drop_Suc)
      show ?thesis
        using pd om oo st bc l
        by (auto simp: defs d Cons y ys slice_one slice_two p split: if_splits)
    qed
  next
    case code
    show ?thesis
    proof (cases "drop (Suc (pos s)) text")
      case Nil
      then have e: "length text = Suc (pos s)" using p by simp
      have s1: "slice text (pos s) (Suc (pos s)) = [text ! pos s]"
        using p by (simp add: slice_one)
      have n: "\<not> Suc (pos s) < length text"
        using e by simp
      show ?thesis
        using pd om oo st code
        by (auto simp: defs d Nil s1 n split: if_splits)
    next
      case (Cons y ys)
      then have l: "Suc (pos s) < length text"
        by (metis drop_eq_Nil2 list.distinct(1) not_le)
      have y: "text ! Suc (pos s) = y" and ys: "drop (Suc (Suc (pos s))) text = ys"
        using Cons l by (simp_all flip: Cons_nth_drop_Suc)
      show ?thesis
        using pd om oo st code l
        by (auto simp: defs d Cons y ys slice_one slice_two p split: if_splits)
    qed
  qed
qed

lemma scan_step_Inr:
  assumes "scan_step text oc cc inner start s = Inr (e, chunk)"
  shows "e = Suc (pos s) \<and> text ! pos s = cc \<and> depth s = 1
       \<and> chunk = (if inner then slice text (Suc start) (pos s) else slice text start (Suc (pos s)))"
  using assms by (auto simp: scan_step_def Let_def split: option.splits if_splits)

lemma scan_loop_balance:
  "scan_loop tx oc cc inner start s = Some (e, chunk) \<Longrightarrow> one_mode s \<Longrightarrow>
         outside_only oc cc (mode_of s) (drop (pos s) tx) \<Longrightarrow> plain_delims oc cc \<Longrightarrow>
         pos s < e \<and> e \<le> length tx
         \<and> int (count_list (slice tx (pos s) e) oc) + depth s
             = int (count_list (slice tx (pos s) e) cc)
         \<and> tx ! (e - 1) = cc
         \<and> chunk = (if inner then slice tx (Suc start) (e - 1) else slice tx start e)"
proof (induction tx oc cc inner start s rule: scan_loop.induct)
  case (1 tx oc cc inner start s)
  from "1.prems"(1) have p: "pos s < length tx"
    by (simp add: scan_loop.simps [of _ _ _ _ _ s] split: if_splits)
  show ?case
  proof (cases "scan_step tx oc cc inner start s")
    case (Inl s')
    with "1.prems"(1) p have loop: "scan_loop tx oc cc inner start s' = Some (e, chunk)"
      by (simp add: scan_loop.simps [of _ _ _ _ _ s])
    from scan_step_Inl [OF "1.prems"(4) p "1.prems"(2,3) Inl]
    have om: "one_mode s'" and oo: "outside_only oc cc (mode_of s') (drop (pos s') tx)"
      and lt: "pos s < pos s'"
      and cnt: "int (count_list (slice tx (pos s) (pos s')) oc) + depth s
                = int (count_list (slice tx (pos s) (pos s')) cc) + depth s'"
      by simp_all
    from "1.IH" [OF p Inl loop om oo "1.prems"(4)]
    have ih: "pos s' < e" "e \<le> length tx"
      "int (count_list (slice tx (pos s') e) oc) + depth s'
         = int (count_list (slice tx (pos s') e) cc)"
      "tx ! (e - 1) = cc"
      "chunk = (if inner then slice tx (Suc start) (e - 1) else slice tx start e)"
      by simp_all
    have "slice tx (pos s) e = slice tx (pos s) (pos s') @ slice tx (pos s') e"
      using lt ih(1) by (intro slice_append) simp_all
    with cnt ih lt show ?thesis by simp
  next
    case (Inr r)
    with "1.prems"(1) p have r: "r = (e, chunk)"
      by (simp add: scan_loop.simps [of _ _ _ _ _ s])
    from scan_step_Inr [OF Inr [unfolded r]] p "1.prems"(4)
    show ?thesis
      by (auto simp: slice_one plain_delims_def)
  qed
qed


lemma structural_macros_plain:
  "STRUCTURAL_MACROS m = Some (oc, cc, inner) \<Longrightarrow> plain_delims oc cc"
  by (auto simp: STRUCTURAL_MACROS_def plain_delims_def split: if_splits)

lemma slice_Cons: "p < e \<Longrightarrow> p < length t \<Longrightarrow> slice t p e = t ! p # slice t (Suc p) e"
  using slice_append [of p "Suc p" e t] by (simp add: slice_one)

lemma slice_snoc: "p < e \<Longrightarrow> e \<le> length t \<Longrightarrow> slice t p e = slice t p (e - 1) @ [t ! (e - 1)]"
  using slice_append [of p "e - 1" e t] slice_one [of "e - 1" t] by simp

text \<open>
  C9. Take a delimiter pair of the macro table and a text in which, read from the
  character after the opening delimiter, the two delimiter characters occur only outside
  string literals and comments. Then the region captured by a successful balanced scan,
  with or without its outer delimiters, contains as many opening as closing characters.
  And in any scan, a pass through the loop made in string, line-comment or block-comment
  state, whatever the character at the position, continues the loop with the depth
  counter unchanged.
\<close>

theorem scanner_fidelity:
  assumes "STRUCTURAL_MACROS m = Some (open_ch, close_ch, inner_only)"
  shows "(\<forall>e chunk.
            match_balanced text i open_ch close_ch inner_only = Some (e, chunk) \<longrightarrow>
            outside_only open_ch close_ch Code (drop (Suc i) text) \<longrightarrow>
            count_list chunk open_ch = count_list chunk close_ch)
       \<and> (\<forall>s. pos s < length text \<longrightarrow>
              in_string s \<noteq> None \<or> in_line_comment s \<or> in_block_comment s \<longrightarrow>
              (\<exists>s'. scan_step text open_ch close_ch inner_only start s = Inl s'
                    \<and> depth s' = depth s))"
proof (intro conjI allI impI)
  fix e chunk
  assume mb: "match_balanced text i open_ch close_ch inner_only = Some (e, chunk)"
    and oo: "outside_only open_ch close_ch Code (drop (Suc i) text)"
  let ?s0 = "\<lparr>pos = i + 1, depth = 1, in_string = None,
               in_line_comment = False, in_block_comment = False\<rparr>"
  from assms have pd: "plain_delims open_ch close_ch"
    by (rule structural_macros_plain)
  from mb have i: "i < length text" and o: "text ! i = open_ch"
    and loop: "scan_loop text open_ch close_ch inner_only i ?s0 = Some (e, chunk)"
    by (simp_all add: match_balanced_def split: if_splits)
  have "one_mode ?s0" and "mode_of ?s0 = Code"
    by (simp_all add: one_mode_def mode_of_def)
  with oo scan_loop_balance [OF loop _ _ pd]
  have e: "Suc i < e" "e \<le> length text"
    and cnt: "int (count_list (slice text (Suc i) e) open_ch) + 1
              = int (count_list (slice text (Suc i) e) close_ch)"
    and last: "text ! (e - 1) = close_ch"
    and chunk: "chunk = (if inner_only then slice text (Suc i) (e - 1) else slice text i e)"
    by simp_all
  from pd have ne: "open_ch \<noteq> close_ch"
    by (simp add: plain_delims_def)
  show "count_list chunk open_ch = count_list chunk close_ch"
  proof (cases inner_only)
    case True
    have "slice text (Suc i) e = slice text (Suc i) (e - 1) @ [close_ch]"
      using slice_snoc [OF e] last by simp
    with cnt chunk True ne show ?thesis by simp
  next
    case False
    have "slice text i e = open_ch # slice text (Suc i) e"
      using slice_Cons [of i e] e i o by simp
    with cnt chunk False ne show ?thesis by simp
  qed
next
  fix s :: scan_state
  assume "pos s < length text"
    and m: "in_string s \<noteq> None \<or> in_line_comment s \<or> in_block_comment s"
  show "\<exists>s'. scan_step text open_ch close_ch inner_only start s = Inl s'
                \<and> depth s' = depth s"
  proof (cases "in_string s")
    case (Some q)
    then show ?thesis
      by (simp add: scan_step_def Let_def)
  next
    case None
    show ?thesis
    proof (cases "in_line_comment s")
      case True
      with None show ?thesis
        by (simp add: scan_step_def Let_def)
    next
      case False
      with None m have "in_block_comment s" by simp
      with None False show ?thesis
        by (simp add: scan_step_def Let_def)
    qed
  qed
qed

theorem scanner_fidelity_witness:
  "STRUCTURAL_MACROS ''()'' = Some (CHR ''('', CHR '')'', False)
   \<and> match_balanced ''f(a /* x */, (b)) // c'' 1 CHR ''('' CHR '')'' False
       = Some (17, ''(a /* x */, (b))'')
   \<and> outside_only CHR ''('' CHR '')'' Code (drop 2 ''f(a /* x */, (b)) // c'')
   \<and> count_list ''(a /* x */, (b))'' CHR ''('' = count_list ''(a /* x */, (b))'' CHR '')''
   \<and> (\<exists>s'. scan_step ''(/*(*/)'' CHR ''('' CHR '')'' False 0
               \<lparr>pos = 3, depth = 1, in_string = None,
                in_line_comment = False, in_block_comment = True\<rparr> = Inl s'
            \<and> depth s' = 1)"
proof -
  have m: "STRUCTURAL_MACROS ''()'' = Some (CHR ''('', CHR '')'', False)"
    by (simp add: STRUCTURAL_MACROS_def)
  have mb: "match_balanced ''f(a /* x */, (b)) // c'' 1 CHR ''('' CHR '')'' False
       = Some (17, ''(a /* x */, (b))'')"
    by code_simp
  have oo: "outside_only CHR ''('' CHR '')'' Code (drop (Suc 1) ''f(a /* x */, (b)) // c'')"
    by code_simp
  have "count_list ''(a /* x */, (b))'' CHR ''('' = count_list ''(a /* x */, (b))'' CHR '')''"
    by (rule scanner_fidelity [OF m, THEN conjunct1, rule_format, OF mb oo])
  moreover
  have p1: "pos \<lparr>pos = 3, depth = 1, in_string = None,
                in_line_comment = False, in_block_comment = True\<rparr> < length ''(/*(*/)''"
    by simp
  have p2: "in_string \<lparr>pos = 3, depth = 1, in_string = None,
                in_line_comment = False, in_block_comment = True\<rparr> \<noteq> None
      \<or> in_line_comment \<lparr>pos = 3, depth = 1, in_string = None,
                in_line_comment = False, in_block_comment = True\<rparr>
      \<or> in_block_comment \<lparr>pos = 3, depth = 1, in_string = None,
                in_line_comment = False, in_block_comment = True\<rparr>"
    by simp
  from scanner_fidelity [OF m, THEN conjunct2, rule_format, OF p1 p2, of 0]
  have "\<exists>s'. scan_step ''(/*(*/)'' CHR ''('' CHR '')'' False 0
               \<lparr>pos = 3, depth = 1, in_string = None,
                in_line_comment = False, in_block_comment = True\<rparr> = Inl s'
            \<and> depth s' = 1"
    by simp
  ultimately show ?thesis using m mb oo by simp
qed

section \<open>Coverage of the matched span\<close>

lemma replay_covers:
  "replay text toks sgs i caps = Some (e, caps') \<Longrightarrow>
   i \<le> e \<and> concat (map (\<lambda>(tok, sg). covered tok sg) (zip toks sgs)) = slice text i e"
proof (induction "text" toks sgs i caps rule: replay.induct)
  case (1 tx i caps)
  then show ?case by (simp add: slice_def)
next
  case (2 tx tok toks sg sgs i caps)
  let ?w = "covered tok sg"
  from "2.prems" have fit: "slice tx i (i + length ?w) = ?w"
    and rest: "replay tx toks sgs (i + length ?w) (bind_seg tok sg caps) = Some (e, caps')"
    by (simp_all split: if_splits)
  from "2.IH" [OF _ rest] "2.prems"
  have ih: "i + length ?w \<le> e"
    "concat (map (\<lambda>(tok, sg). covered tok sg) (zip toks sgs)) = slice tx (i + length ?w) e"
    by (simp_all split: if_splits)
  have "slice tx i e = slice tx i (i + length ?w) @ slice tx (i + length ?w) e"
    using ih(1) by (intro slice_append) simp_all
  with fit ih show ?case by simp
qed simp_all

lemma lit_match_bound:
  "lit_match re s = Some k \<Longrightarrow> k \<le> length s"
  "ws_backtrack re s j = Some k \<Longrightarrow> j \<le> length s \<Longrightarrow> k \<le> length s"
proof (induction re s and re s j arbitrary: k and k rule: lit_match_ws_backtrack.induct)
  case (1 s)
  then show ?case by (simp add: lit_match.simps)
next
  case (2 c r s)
  then show ?case
    by (cases s) (auto simp: lit_match.simps split: if_splits)
next
  case (3 r s)
  have "length (takeWhile is_space s) \<le> length s"
    by (rule length_takeWhile_le)
  with 3 show ?case by (simp add: lit_match.simps)
next
  case (4 r s j)
  show ?case
  proof (cases "lit_match r (drop j s)")
    case None
    with "4.prems"(1) have "(case j of 0 \<Rightarrow> None | Suc j' \<Rightarrow> ws_backtrack r s j') = Some k"
      by (simp add: ws_backtrack.simps [of r s j])
    then obtain j' where j: "j = Suc j'" and w: "ws_backtrack r s j' = Some k"
      by (cases j) simp_all
    from "4.IH"(2) [OF None j w] "4.prems"(2) j show ?thesis by simp
  next
    case (Some m)
    with "4.prems" have k: "k = j + m"
      by (simp add: ws_backtrack.simps [of r s j])
    from "4.IH"(1) [OF Some] have "m \<le> length s - j" by simp
    with k "4.prems"(2) show ?thesis by simp
  qed
qed

lemma regex_match_bound:
  "regex_match re text i = Some e \<Longrightarrow> i \<le> length text \<Longrightarrow> i \<le> e \<and> e \<le> length text"
  by (auto simp: regex_match_def Let_def min_def dest!: lit_match_bound(1))

lemma scan_loop_result:
  "scan_loop tx oc cc inner start s = Some (e, chunk) \<Longrightarrow>
   pos s < e \<and> e \<le> length tx \<and> tx ! (e - 1) = cc
   \<and> chunk = (if inner then slice tx (Suc start) (e - 1) else slice tx start e)"
proof (induction tx oc cc inner start s rule: scan_loop.induct)
  case (1 tx oc cc inner start s)
  from "1.prems" have p: "pos s < length tx"
    by (simp add: scan_loop.simps [of _ _ _ _ _ s] split: if_splits)
  show ?case
  proof (cases "scan_step tx oc cc inner start s")
    case (Inl s')
    with "1.prems" p have "scan_loop tx oc cc inner start s' = Some (e, chunk)"
      by (simp add: scan_loop.simps [of _ _ _ _ _ s])
    from "1.IH" [OF p Inl this] scan_step_advances [OF Inl] show ?thesis by simp
  next
    case (Inr r)
    with "1.prems" p have "r = (e, chunk)"
      by (simp add: scan_loop.simps [of _ _ _ _ _ s])
    with Inr p show ?thesis
      by (auto simp: scan_step_def Let_def split: option.splits if_splits)
  qed
qed


lemma length_slice: "a \<le> b \<Longrightarrow> b \<le> length t \<Longrightarrow> length (slice t a b) = b - a"
  by (simp add: slice_def)

lemma match_balanced_covers:
  assumes "match_balanced tx i oc cc inner = Some (e, chunk)"
  shows "i < e \<and> e \<le> length tx
       \<and> (if inner then oc # chunk @ [cc] else chunk) = slice tx i e"
proof -
  from assms have i: "i < length tx" and o: "tx ! i = oc"
    and loop: "scan_loop tx oc cc inner i
                 \<lparr>pos = i + 1, depth = 1, in_string = None,
                  in_line_comment = False, in_block_comment = False\<rparr> = Some (e, chunk)"
    by (simp_all add: match_balanced_def split: if_splits)
  from scan_loop_result [OF loop]
  have e: "Suc i < e" "e \<le> length tx" and c: "tx ! (e - 1) = cc"
    and chunk: "chunk = (if inner then slice tx (Suc i) (e - 1) else slice tx i e)"
    by simp_all
  have "slice tx i e = oc # slice tx (Suc i) e"
    using slice_Cons [of i e tx] e i o by simp
  moreover have "slice tx (Suc i) e = slice tx (Suc i) (e - 1) @ [cc]"
    using slice_snoc [OF e] c by simp
  ultimately show ?thesis using e chunk by simp
qed

lemma replay_step:
  assumes "ti < length tokens" and "seg_fits (tokens ! ti) sg"
    and "i \<le> x" and "x \<le> length tx" and "covered (tokens ! ti) sg = slice tx i x"
    and "case tokens ! ti of
           LiteralToken t re \<Rightarrow> regex_match re tx i = Some x
         | HoleToken name macro regex optional \<Rightarrow> True"
    and "replay tx (drop (Suc ti) tokens) sgs x (bind_seg (tokens ! ti) sg caps) = Some r"
  shows "replay tx (drop ti tokens) (sg # sgs) i caps = Some r"
proof -
  have d: "drop ti tokens = tokens ! ti # drop (Suc ti) tokens"
    using assms(1) by (simp add: Cons_nth_drop_Suc)
  have l: "i + length (covered (tokens ! ti) sg) = x"
    using assms(3,4,5) by (simp add: length_slice)
  have "replay tx (tokens ! ti # drop (Suc ti) tokens) (sg # sgs) i caps
        = replay tx (drop (Suc ti) tokens) sgs x (bind_seg (tokens ! ti) sg caps)"
    unfolding replay.simps l
    using assms(2,4,6) assms(5) [symmetric] by simp
  with assms(7) show ?thesis by (simp only: d)
qed

lemma match_explained:
  "match_from tx tokens ti i caps = (True, e, caps') \<Longrightarrow> i \<le> length tx \<Longrightarrow>
   \<exists>sgs. replay tx (drop ti tokens) sgs i caps = Some (e, caps')"
  "try_ends tx tokens ti i caps name macro regex optional ends = (True, e, caps') \<Longrightarrow>
   i \<le> length tx \<Longrightarrow> ti < length tokens \<Longrightarrow>
   tokens ! ti = HoleToken name macro regex optional \<Longrightarrow>
   Option.bind macro STRUCTURAL_MACROS = None \<Longrightarrow>
   (\<forall>x \<in> set ends. i \<le> x \<and> x \<le> length tx) \<Longrightarrow>
   \<exists>sgs. replay tx (drop ti tokens) sgs i caps = Some (e, caps')"
proof (induction tx tokens ti i caps and tx tokens ti i caps name macro regex optional ends
    rule: match_from_try_ends.induct)
  case (1 tx tokens ti i caps)
  note m = "1.prems"(1) [unfolded match_from.simps [of tx tokens ti i caps]]
  show ?case
  proof (cases "length tokens \<le> ti")
    case True
    with m have "replay tx (drop ti tokens) [] i caps = Some (e, caps')" by simp
    then show ?thesis ..
  next
    case False
    then have ti: "ti < length tokens" by simp
    show ?thesis
    proof (cases "tokens ! ti")
      case (LiteralToken t re)
      with m False obtain x where x: "regex_match re tx i = Some x"
        and rest: "match_from tx tokens (ti + 1) x caps = (True, e, caps')"
        by (auto split: option.splits)
      from regex_match_bound [OF x "1.prems"(2)] have b: "i \<le> x" "x \<le> length tx"
        by simp_all
      from "1.IH"(1) [OF False LiteralToken x rest b(2)]
      obtain sgs where "replay tx (drop (Suc ti) tokens) sgs x caps = Some (e, caps')"
        by auto
      then have "replay tx (drop ti tokens) (LitSeg (slice tx i x) # sgs) i caps = Some (e, caps')"
        using ti b x LiteralToken by (intro replay_step [where x = x]) simp_all
      then show ?thesis ..
    next
      case (HoleToken name macro regex optional)
      show ?thesis
      proof (cases "Option.bind macro STRUCTURAL_MACROS")
        case None
        with m False HoleToken
        have "try_ends tx tokens ti i caps name macro regex optional (end_iter macro regex tx i)
              = (True, e, caps')"
          by simp
        moreover have "\<forall>x \<in> set (end_iter macro regex tx i). i \<le> x \<and> x \<le> length tx"
          by (auto simp: end_iter_def)
        ultimately show ?thesis
          using "1.IH"(2) [OF False HoleToken None] "1.prems"(2) ti HoleToken None by blast
      next
        case (Some triple)
        obtain oc cc inner where triple: "triple = (oc, cc, inner)"
          by (cases triple) auto
        with m False HoleToken Some obtain x chunk
          where mb: "match_balanced tx i oc cc inner = Some (x, chunk)"
            and rest: "match_from tx tokens (ti + 1) x
                         (case name of
                            Some n \<Rightarrow> if n \<noteq> [] then caps(n \<mapsto> Some chunk) else caps
                          | None \<Rightarrow> caps) = (True, e, caps')"
          by (auto split: option.splits)
        from match_balanced_covers [OF mb]
        have b: "i \<le> x" "x \<le> length tx"
          and cov: "(if inner then oc # chunk @ [cc] else chunk) = slice tx i x"
          by simp_all
        have "(oc, cc, inner) = triple" "(cc, inner) = (cc, inner)" "(x, chunk) = (x, chunk)"
          using triple by simp_all
        from "1.IH"(3) [OF False HoleToken Some this(1,2) mb this(3) rest b(2)]
        obtain sgs where r: "replay tx (drop (Suc ti) tokens) sgs x
                         (case name of
                            Some n \<Rightarrow> if n \<noteq> [] then caps(n \<mapsto> Some chunk) else caps
                          | None \<Rightarrow> caps) = Some (e, caps')"
          by auto
        have bs: "bind_seg (HoleToken name macro regex optional) (HoleSeg (Some chunk)) caps
                  = (case name of
                       Some n \<Rightarrow> if n \<noteq> [] then caps(n \<mapsto> Some chunk) else caps
                     | None \<Rightarrow> caps)"
          using Some by (cases name) auto
        have "replay tx (drop ti tokens) (HoleSeg (Some chunk) # sgs) i caps = Some (e, caps')"
          using ti b cov HoleToken Some triple r
          by (intro replay_step [where x = x]) (simp_all add: bs)
        then show ?thesis ..
      qed
    qed
  qed
next
  case (2 tx tokens ti i caps name macro regex optional)
  note t = "2.prems"(1) [unfolded try_ends.simps]
  from t have opt: optional
    by (simp split: if_splits)
  with t have rest: "match_from tx tokens (ti + 1) i
      (case name of
         Some n \<Rightarrow> if caps n = None then caps(n \<mapsto> None) else caps
       | None \<Rightarrow> caps) = (True, e, caps')"
    by simp
  from "2.IH" [OF opt rest "2.prems"(2)]
  obtain sgs where r: "replay tx (drop (Suc ti) tokens) sgs i
      (case name of
         Some n \<Rightarrow> if caps n = None then caps(n \<mapsto> None) else caps
       | None \<Rightarrow> caps) = Some (e, caps')"
    by auto
  have bs: "bind_seg (HoleToken name macro regex opt) (HoleSeg None) caps
            = (case name of
                 Some n \<Rightarrow> if caps n = None then caps(n \<mapsto> None) else caps
               | None \<Rightarrow> caps)" for opt
    by (cases name) auto
  have "replay tx (drop ti tokens) (HoleSeg None # sgs) i caps = Some (e, caps')"
    using "2.prems"(2,3,4) opt r
    by (intro replay_step [where x = i]) (simp_all add: bs slice_def)
  then show ?case ..
next
  case (3 tx tokens ti i caps name macro regex optional x es)
  note t = "3.prems"(1) [unfolded try_ends.simps]
  let ?c1 = "case Option.bind macro REGEX_MACROS of
               None \<Rightarrow> False | Some r \<Rightarrow> \<not> dollar_match r (slice tx i x)"
  let ?c2 = "case regex of None \<Rightarrow> False | Some re \<Rightarrow> \<not> re (slice tx i x)"
  let ?caps = "case name of None \<Rightarrow> caps | Some n \<Rightarrow> caps(n \<mapsto> Some (slice tx i x))"
  from "3.prems"(6) have es: "\<forall>y \<in> set es. i \<le> y \<and> y \<le> length tx"
    and b: "i \<le> x" "x \<le> length tx"
    by simp_all
  note rest_prems = "3.prems"(2,3,4,5) es
  show ?case
  proof (cases ?c1)
    case True
    with t have "try_ends tx tokens ti i caps name macro regex optional es = (True, e, caps')"
      by simp
    from "3.IH"(1) [OF True this rest_prems] show ?thesis .
  next
    case c1: False
    show ?thesis
    proof (cases ?c2)
      case True
      with t c1 have "try_ends tx tokens ti i caps name macro regex optional es = (True, e, caps')"
        by simp
      from "3.IH"(2) [OF c1 True this rest_prems] show ?thesis .
    next
      case c2: False
      obtain ok end_pos cap_res where
        mf: "match_from tx tokens (ti + 1) x ?caps = (ok, end_pos, cap_res)"
        by (cases "match_from tx tokens (ti + 1) x ?caps") auto
      show ?thesis
      proof (cases ok)
        case True
        with t c1 c2 mf have eq: "end_pos = e" "cap_res = caps'"
          by simp_all
        from mf True eq have mf': "match_from tx tokens (ti + 1) x ?caps = (True, e, caps')"
          by simp
        from "3.IH"(3) [OF c1 c2 mf' b(2)]
        obtain sgs where r: "replay tx (drop (Suc ti) tokens) sgs x ?caps = Some (e, caps')"
          by auto
        have bs: "bind_seg (HoleToken name macro regex optional) (HoleSeg (Some (slice tx i x))) caps
                  = ?caps"
          using "3.prems"(5) by (cases name) auto
        have "replay tx (drop ti tokens) (HoleSeg (Some (slice tx i x)) # sgs) i caps
              = Some (e, caps')"
          using "3.prems"(3,4,5) b r
          by (intro replay_step [where x = x]) (simp_all add: bs)
        then show ?thesis ..
      next
        case False
        with t c1 c2 mf
        have "try_ends tx tokens ti i caps name macro regex optional es = (True, e, caps')"
          by simp
        from "3.IH"(4) [OF c1 c2 mf [symmetric] refl False this rest_prems] show ?thesis .
      qed
    qed
  qed
qed


lemma match_first_from_start:
  "match_first_from tx tokens starts = (True, (s, e), caps) \<Longrightarrow>
   s \<in> set starts \<and> match_from tx tokens 0 s Map.empty = (True, e, caps)"
proof (induction starts)
  case Nil
  then show ?case by simp
next
  case (Cons a starts)
  obtain ok end_pos caps0 where m: "match_from tx tokens 0 a Map.empty = (ok, end_pos, caps0)"
    by (cases "match_from tx tokens 0 a Map.empty") auto
  show ?case
  proof (cases ok)
    case True
    with Cons.prems m show ?thesis by simp
  next
    case False
    with Cons.prems m have "match_first_from tx tokens starts = (True, (s, e), caps)"
      by simp
    from Cons.IH [OF this] show ?thesis by simp
  qed
qed

text \<open>
  C5, as stated, fails for the inner-only macros: on the text \<open>(a)\<close> the hole \<open>:[x:(_)]\<close>
  matches the span from 0 to 3 and captures \<open>a\<close>, which is not the text of the span.
\<close>

theorem inner_only_counterexample:
  "(case match_first ''(a)'' [HoleToken (Some ''x'') (Some ''(_)'') None False] of
      (ok, (s, e), caps) \<Rightarrow> ok \<and> slice ''(a)'' s e = ''(a)'' \<and> caps ''x'' = Some (Some ''a''))
   \<and> concat (map seg_text [HoleSeg (Some ''a'')]) \<noteq> ''(a)''"
  by code_simp

text \<open>No other decomposition of that match would do: the checked ones all concatenate
  to \<open>a\<close>.\<close>

lemma inner_only_no_decomposition:
  assumes r: "replay ''(a)'' [HoleToken (Some ''x'') (Some ''(_)'') None False] sgs 0 Map.empty
              = Some (3, caps)"
  shows "concat (map seg_text sgs) = ''a''"
proof (cases sgs)
  case Nil
  with r show ?thesis by simp
next
  case (Cons sg rest)
  with r have rest: "rest = []"
    by (cases rest) (simp_all split: if_splits)
  show ?thesis
  proof (cases sg)
    case (LitSeg u)
    with r Cons show ?thesis by simp
  next
    case (HoleSeg v)
    show ?thesis
    proof (cases v)
      case None
      with r Cons HoleSeg show ?thesis by simp
    next
      case (Some w)
      with r Cons HoleSeg rest have "slice ''(a)'' 0 (Suc (Suc (length w))) = CHR ''('' # w @ '')''"
        by (simp add: STRUCTURAL_MACROS_def split: if_splits)
      then have "w = ''a''"
        by (cases w) (auto simp: slice_def)
      with Cons HoleSeg Some rest show ?thesis by simp
    qed
  qed
qed

text \<open>
  C5, amended. For every successful match of a span from \<open>s\<close> to \<open>e\<close> there is a
  decomposition, one segment for each token in pattern order, that the text bears out
  from \<open>s\<close> to \<open>e\<close> and whose hole values, bound in order, give the bindings returned; the
  texts covered by its segments (the text consumed by each literal, the captured value of
  each hole, with the open and close characters put back around the value of an
  inner-only structural hole) concatenate to exactly the text of the span.
\<close>

theorem match_covers_span:
  assumes "match_first text tokens = (True, (s, e), caps)"
  shows "\<exists>sgs. replay text tokens sgs s Map.empty = Some (e, caps)
             \<and> concat (map (\<lambda>(tok, sg). covered tok sg) (zip tokens sgs)) = slice text s e"
proof -
  from assms have st: "s \<in> set [0 ..< length text + 1]"
    and m: "match_from text tokens 0 s Map.empty = (True, e, caps)"
    unfolding match_first_def by (auto dest: match_first_from_start)
  from st have "s \<le> length text" by auto
  from match_explained(1) [OF m this]
  obtain sgs where r: "replay text tokens sgs s Map.empty = Some (e, caps)"
    by auto
  from replay_covers [OF r] r show ?thesis by blast
qed

theorem match_covers_span_witness:
  "fst (match_first ''y = (a)''
          [HoleToken (Some ''v'') None None False, make_literal_token '' = '',
           HoleToken (Some ''e'') (Some ''(_)'') None False])
   \<and> fst (snd (match_first ''y = (a)''
          [HoleToken (Some ''v'') None None False, make_literal_token '' = '',
           HoleToken (Some ''e'') (Some ''(_)'') None False])) = (0, 7)
   \<and> (\<exists>sgs. replay ''y = (a)''
          [HoleToken (Some ''v'') None None False, make_literal_token '' = '',
           HoleToken (Some ''e'') (Some ''(_)'') None False] sgs 0 Map.empty
           = Some (7, snd (snd (match_first ''y = (a)''
               [HoleToken (Some ''v'') None None False, make_literal_token '' = '',
                HoleToken (Some ''e'') (Some ''(_)'') None False])))
         \<and> concat (map (\<lambda>(tok, sg). covered tok sg)
              (zip [HoleToken (Some ''v'') None None False, make_literal_token '' = '',
                    HoleToken (Some ''e'') (Some ''(_)'') None False] sgs)) = ''y = (a)'')"
proof -
  let ?toks = "[HoleToken (Some ''v'') None None False, make_literal_token '' = '',
                HoleToken (Some ''e'') (Some ''(_)'') None False]"
  have a: "fst (match_first ''y = (a)'' ?toks)"
    and b: "fst (snd (match_first ''y = (a)'' ?toks)) = (0, 7)"
    by code_simp+
  then have "match_first ''y = (a)'' ?toks
             = (True, (0, 7), snd (snd (match_first ''y = (a)'' ?toks)))"
    by (cases "match_first ''y = (a)'' ?toks") auto
  from match_covers_span [OF this] a b show ?thesis
    by (simp add: slice_def)
qed

end
